theory Spec2Isabelle
  imports Main
begin

section \<open>The program \<open>query\<close>: data model\<close>

text \<open>
  \<open>query.c\<close> reads file names from standard input, runs a command on the contents of
  each file and prints the names for which the command succeeded (or failed, with \<open>-!\<close>).
  The embedding covers \<open>main\<close> from the checks that follow option parsing down to its
  final \<open>return\<close>; the result of option parsing is the record \<open>config\<close>.

  Everything outside the process is a script of results, the \<open>world\<close>: what each system
  call returns. The program is a function of the configuration, the world and the bytes
  on standard input; it returns how the process ends and what it did, as a trace of
  events in the order in which they happen.
\<close>

datatype delimation_et = LINE_DELIMATION | NULL_BYTE_DELIMATION | ASCII_WHITESPACE_DELIMATION

record config =
  delimation :: delimation_et
  display_on_success :: bool
  redirect_stderr :: bool
  command :: "string list"  \<comment> \<open>\<open>argv[optind]\<close>, \<open>argv[optind + 1]\<close>, ...\<close>

datatype errno = ENOENT | EACCES | EISDIR | EINTR | ECHILD | EAGAIN | ENOMEM | EIO | EOTHER nat

text \<open>
  The status word that \<open>wait(2)\<close> stores: \<open>WIFEXITED\<close> with its \<open>WEXITSTATUS\<close>,
  \<open>WIFSIGNALED\<close> with its \<open>WTERMSIG\<close>, or neither (a stopped or continued child).
\<close>

datatype wait_status = WExited int | WSignaled int | WOther

datatype wait_result = Wait_fails errno | Wait_status wait_status

text \<open>
  What the child does between \<open>fork\<close> and the end of \<open>execvp\<close>: one of the three
  \<open>dup2\<close> calls fails, \<open>execvp\<close> fails, or the command runs.
\<close>

datatype child_behaviour = Dup2_fails errno | Exec_fails errno | Runs

text \<open>
  The results of the system calls made for one token: \<open>None\<close> is success for \<open>open\<close>,
  \<open>setenv\<close> and \<open>fork\<close>; \<open>fstat\<close> either fails or tells whether the descriptor is a
  directory; \<open>waits\<close> lists what the successive calls of \<open>wait\<close> return, and a call
  for which the list has no result never returns (the child hangs).
\<close>

record os_response =
  open_r :: "errno option"
  fstat_r :: "errno + bool"
  setenv_r :: "errno option"
  fork_r :: "errno option"
  child :: child_behaviour
  waits :: "wait_result list"

text \<open>
  The world: the response to the \<open>n\<close>-th call of \<open>open\<close> on a path, the error (if any)
  with which reading standard input ends instead of a plain end of file, and the results
  of opening \<open>/dev/null\<close> and of installing the signal handler.
\<close>

record world =
  responses :: "nat \<Rightarrow> string \<Rightarrow> os_response"
  stdin_error :: "errno option"
  dev_null_r :: "errno option"
  signal_r :: "errno option"

datatype sink = Stderr | Dev_null

text \<open>
  The events of a run. \<open>Diag s e\<close> is the line \<open>s: strerror(e)\<close> on the parent's error
  stream, as \<open>perror(s)\<close> and the \<open>fprintf\<close> for a directory write it. The number in an
  event is the number of the token: how many calls of \<open>open\<close> came before its own.
\<close>

datatype event =
    Open_call nat string
  | Diag string errno
  | Message string
  | Setenv nat string
  | Fork nat
  | Child_diag sink string errno
  | Sigusr1
  | Wait_other nat
  | Reaped nat wait_status int
  | Emitted nat string

record pstate =
  non_fatal_errors :: bool
  opens :: nat
  trace :: "event list"

datatype outcome = Exit nat | Hang

section \<open>Reading and splitting the input\<close>

text \<open>
  \<open>isspace\<close> in the C locale (the program never calls \<open>setlocale\<close>): space, and the five
  control characters from horizontal tab to carriage return.
\<close>

definition isspace :: "char \<Rightarrow> bool" where
  "isspace c \<longleftrightarrow> c \<in> {CHR '' '', CHR 0x09, CHR 0x0A, CHR 0x0B, CHR 0x0C, CHR 0x0D}"

text \<open>
  \<open>getdelim\<close> on the bytes still to be read: it returns the bytes up to and including
  the first delimiter (or all of them when there is none), and \<open>None\<close>, the C \<open>-1\<close>, when
  nothing is left. \<open>getline\<close> is \<open>getdelim\<close> with the line feed.
\<close>

fun read_record :: "char \<Rightarrow> string \<Rightarrow> string \<times> string" where
  "read_record d [] = ([], [])"
| "read_record d (c # cs) =
     (if c = d then ([c], cs)
      else (case read_record d cs of (l, r) \<Rightarrow> (c # l, r)))"

definition getdelim :: "char \<Rightarrow> string \<Rightarrow> (string \<times> string) option" where
  "getdelim d inp = (if inp = [] then None else Some (read_record d inp))"

definition delimiter :: "config \<Rightarrow> char" where
  "delimiter cfg = (if delimation cfg = NULL_BYTE_DELIMATION then CHR 0x00 else CHR 0x0A)"

definition getline_function :: "config \<Rightarrow> string" where
  "getline_function cfg =
     (if delimation cfg = NULL_BYTE_DELIMATION then ''getdelim'' else ''getline'')"

text \<open>
  The buffer \<open>line\<close> holds \<open>line_length\<close> bytes and the terminating null byte that
  \<open>getline\<close> adds: \<open>at buf i\<close> reads \<open>line[i]\<close>, for \<open>i \<le> line_length\<close>.
\<close>

definition at :: "string \<Rightarrow> nat \<Rightarrow> char" where
  "at buf i = (if i < length buf then buf ! i else CHR 0x00)"

text \<open>The string that a \<open>char *\<close> into the buffer denotes: the bytes before the next null byte.\<close>

definition cstring :: "string \<Rightarrow> nat \<Rightarrow> string" where
  "cstring buf i = takeWhile (\<lambda>c. c \<noteq> CHR 0x00) (drop i buf)"

text \<open>
  The null bytes written into the buffer (lines 193 to 203): over a final line feed in
  line mode, over every white-space character in white-space mode.
\<close>

definition insert_nulls :: "config \<Rightarrow> string \<Rightarrow> string" where
  "insert_nulls cfg raw =
     (if delimation cfg = LINE_DELIMATION then
        (if at raw (length raw - 1) = CHR 0x0A then raw[length raw - 1 := CHR 0x00] else raw)
      else if delimation cfg = ASCII_WHITESPACE_DELIMATION then
        map (\<lambda>c. if isspace c then CHR 0x00 else c) raw
      else raw)"

text \<open>
  Line 209: \<open>for (; !(*cursor); cursor++) if (cursor >= eol) goto next_line;\<close>.
  \<open>None\<close> is the jump.
\<close>

function skip_nulls :: "string \<Rightarrow> nat \<Rightarrow> nat option" where
  "skip_nulls buf cursor =
     (if at buf cursor = CHR 0x00 then
        (if cursor \<ge> length buf then None else skip_nulls buf (cursor + 1))
      else Some cursor)"
  by pat_completeness auto
termination
  by (relation "measure (\<lambda>(buf, cursor). length buf - cursor)") auto

declare skip_nulls.simps [simp del]

text \<open>Line 301: \<open>for (; *cursor; cursor++);\<close>.\<close>

function skip_word :: "string \<Rightarrow> nat \<Rightarrow> nat" where
  "skip_word buf cursor =
     (if at buf cursor \<noteq> CHR 0x00 then skip_word buf (cursor + 1) else cursor)"
  by pat_completeness auto
termination
  by (relation "measure (\<lambda>(buf, cursor). length buf - cursor)") (auto simp: at_def split: if_splits)

declare skip_word.simps [simp del]

text \<open>
  Lines 207 to 216: where the next token starts, or \<open>None\<close> when the line has no
  further token.
\<close>

definition locate :: "config \<Rightarrow> string \<Rightarrow> nat \<Rightarrow> nat option" where
  "locate cfg buf cursor =
     (if delimation cfg = ASCII_WHITESPACE_DELIMATION then skip_nulls buf cursor
      else if at buf cursor = CHR 0x00 then None
      else Some cursor)"

section \<open>Processing one token\<close>

definition say :: "event list \<Rightarrow> pstate \<Rightarrow> pstate" where
  "say es st = st\<lparr>trace := trace st @ es\<rparr>"

text \<open>
  The loop around \<open>wait\<close> (lines 269 to 281), over the results still to come: the
  events, and the classified code \<open>return_code\<close>, the failure, or no return at all.
\<close>

datatype waited = W_code int | W_fail errno | W_block

fun wait_loop :: "nat \<Rightarrow> wait_result list \<Rightarrow> event list \<times> waited" where
  "wait_loop n [] = ([], W_block)"
| "wait_loop n (Wait_fails e # ws) = ([Diag ''wait'' e], W_fail e)"
| "wait_loop n (Wait_status (WExited c) # ws) = ([Reaped n (WExited c) c], W_code c)"
| "wait_loop n (Wait_status (WSignaled s) # ws) =
     ([Reaped n (WSignaled s) (s + 128)], W_code (s + 128))"
| "wait_loop n (Wait_status WOther # ws) =
     (case wait_loop n ws of (es, w) \<Rightarrow> (Wait_other n # es, w))"

text \<open>Lines 283 to 290: what is printed for a classified code.\<close>

definition display :: "config \<Rightarrow> nat \<Rightarrow> string \<Rightarrow> string \<Rightarrow> int \<Rightarrow> event list" where
  "display cfg n line tok return_code =
     (if (display_on_success cfg \<and> return_code = 0) \<or>
         (\<not> display_on_success cfg \<and> return_code \<noteq> 0)
      then (if delimation cfg = NULL_BYTE_DELIMATION then [Emitted n line]
            else [Emitted n (tok @ [CHR 0x0A])])
      else [])"

text \<open>
  The child (lines 249 to 261): where its \<open>perror\<close> goes, and what it does. After a
  failed \<open>dup2\<close> its error stream is still the inherited one; after the three calls
  it is \<open>errout_fd\<close>.
\<close>

definition errout_fd :: "config \<Rightarrow> sink" where
  "errout_fd cfg = (if redirect_stderr cfg then Dev_null else Stderr)"

datatype step = Fatal pstate | Hung pstate | Skipped pstate | Done pstate

text \<open>
  Lines 267 to 293, in the parent after \<open>fork\<close>: wait for the child, classify its
  status and print the name. A failing \<open>wait\<close> is a \<open>return 1\<close>.
\<close>

definition wait_for_child ::
  "config \<Rightarrow> nat \<Rightarrow> string \<Rightarrow> string \<Rightarrow> wait_result list \<Rightarrow> pstate \<Rightarrow> step" where
  "wait_for_child cfg n line tok ws st =
     (case wait_loop n ws of
        (es, W_block) \<Rightarrow> Hung (say es st)
      | (es, W_fail e) \<Rightarrow> Fatal (say es st)
      | (es, W_code c) \<Rightarrow> Done (say (es @ display cfg n line tok c) st))"

text \<open>
  Lines 221 to 293 for the token \<open>tok\<close> in the buffer \<open>line\<close>. \<open>Skipped\<close> is a
  non-fatal error, \<open>Fatal\<close> a \<open>return 1\<close> or the \<open>exit(1)\<close> of \<open>sigusr1_handler\<close>.
  The child whose \<open>execvp\<close> fails sends \<open>SIGUSR1\<close> before it ends, so the signal
  reaches the parent no later than the child's status could: the handler runs before
  \<open>wait\<close> hands that status to the loop.
\<close>

definition process_token :: "config \<Rightarrow> world \<Rightarrow> string \<Rightarrow> string \<Rightarrow> pstate \<Rightarrow> step" where
  "process_token cfg os line tok st =
     (let n = opens st;
          r = responses os n tok;
          st1 = say [Open_call n tok] (st\<lparr>opens := n + 1\<rparr>)
      in case open_r r of
           Some e \<Rightarrow> Skipped (say [Diag tok e] (st1\<lparr>non_fatal_errors := True\<rparr>))
         | None \<Rightarrow>
             (case fstat_r r of
                Inl e \<Rightarrow> Fatal (say [Diag tok e] st1)
              | Inr True \<Rightarrow> Skipped (say [Diag tok EISDIR] (st1\<lparr>non_fatal_errors := True\<rparr>))
              | Inr False \<Rightarrow>
                  (case setenv_r r of
                     Some e \<Rightarrow> Fatal (say [Diag ''setenv'' e] st1)
                   | None \<Rightarrow>
                       (case fork_r r of
                          Some e \<Rightarrow> Fatal (say [Setenv n tok, Diag ''fork'' e] st1)
                        | None \<Rightarrow>
                            (case child r of
                               Exec_fails e \<Rightarrow>
                                 Fatal (say [Setenv n tok, Fork n,
                                             Child_diag (errout_fd cfg) (hd (command cfg)) e,
                                             Sigusr1] st1)
                             | Dup2_fails e \<Rightarrow>
                                 wait_for_child cfg n line tok (waits r)
                                   (say [Setenv n tok, Fork n, Child_diag Stderr ''dup2'' e] st1)
                             | Runs \<Rightarrow>
                                 wait_for_child cfg n line tok (waits r)
                                   (say [Setenv n tok, Fork n] st1))))))"

section \<open>The main loop\<close>

text \<open>
  The two places of the main loop at which control arrives: the label \<open>next_line\<close>
  (line 169), and the test of the inner \<open>while\<close> (line 206) with the buffer and
  the cursor.
\<close>

datatype label = Next_line | While_cursor string nat

lemma read_record_shorter: "inp \<noteq> [] \<Longrightarrow> length (snd (read_record d inp)) < length inp"
proof (induction inp)
  case Nil
  then show ?case by simp
next
  case (Cons c cs)
  show ?case
  proof (cases "c = d")
    case True
    then show ?thesis by simp
  next
    case False
    then show ?thesis
      using Cons.IH by (cases cs) (auto split: prod.splits)
  qed
qed

lemma getdelim_shorter: "getdelim d inp = Some (raw, rest) \<Longrightarrow> length rest < length inp"
  using read_record_shorter [of inp d] by (auto simp: getdelim_def split: if_splits)

lemma skip_nulls_Some:
  "skip_nulls buf cursor = Some c \<Longrightarrow> cursor \<le> c \<and> c < length buf \<and> at buf c \<noteq> CHR 0x00"
proof (induction buf cursor rule: skip_nulls.induct)
  case (1 buf cursor)
  show ?case
  proof (cases "at buf cursor = CHR 0x00")
    case True
    with "1.prems" have lt: "cursor < length buf" and rec: "skip_nulls buf (cursor + 1) = Some c"
      by (auto simp: skip_nulls.simps [of buf cursor] split: if_splits)
    from "1.IH" [OF True _ rec] lt show ?thesis by simp
  next
    case False
    with "1.prems" have "c = cursor" by (simp add: skip_nulls.simps [of buf cursor])
    with False show ?thesis by (auto simp: at_def split: if_splits)
  qed
qed

lemma locate_Some:
  "locate cfg buf cursor = Some c \<Longrightarrow> cursor < length buf \<Longrightarrow>
   cursor \<le> c \<and> c < length buf \<and> at buf c \<noteq> CHR 0x00"
  by (auto simp: locate_def dest: skip_nulls_Some split: if_splits)

lemma skip_word_ge: "cursor \<le> skip_word buf cursor"
proof (induction buf cursor rule: skip_word.induct)
  case (1 buf cursor)
  show ?case
  proof (cases "at buf cursor \<noteq> CHR 0x00")
    case True
    from "1.IH" [OF True] True show ?thesis by (simp add: skip_word.simps [of buf cursor])
  next
    case False
    then show ?thesis by (simp add: skip_word.simps [of buf cursor])
  qed
qed

lemma skip_word_gt: "at buf cursor \<noteq> CHR 0x00 \<Longrightarrow> cursor < skip_word buf cursor"
  using skip_word_ge [of "cursor + 1" buf] by (simp add: skip_word.simps [of buf cursor])

text \<open>The raw records of an input: what the successive calls of \<open>getdelim\<close> return.\<close>

function records :: "char \<Rightarrow> string \<Rightarrow> string list" where
  "records d inp =
     (case getdelim d inp of None \<Rightarrow> [] | Some (raw, rest) \<Rightarrow> raw # records d rest)"
  by pat_completeness auto
termination
  by (relation "measure (\<lambda>(d, inp). length inp)") (auto dest: getdelim_shorter)

declare records.simps [simp del]

text \<open>
  The loop from one of these places on, with the bytes \<open>inp\<close> not yet read: how the
  process ends, and its final state. After a token, white-space mode goes on with the
  rest of the line (label \<open>next_word\<close>), the other modes \<open>break\<close> to the next read.
\<close>

definition after_token :: "config \<Rightarrow> string \<Rightarrow> nat \<Rightarrow> label" where
  "after_token cfg buf c =
     (if delimation cfg = ASCII_WHITESPACE_DELIMATION then While_cursor buf (skip_word buf c)
      else Next_line)"

function run :: "config \<Rightarrow> world \<Rightarrow> label \<Rightarrow> string \<Rightarrow> pstate \<Rightarrow> outcome \<times> pstate" where
  "run cfg os Next_line inp st =
     (case getdelim (delimiter cfg) inp of
        None \<Rightarrow>
          (case stdin_error os of
             None \<Rightarrow> (Exit (if non_fatal_errors st then 2 else 0), st)
           | Some e \<Rightarrow> (Exit 1, say [Diag (getline_function cfg) e] st))
      | Some (raw, rest) \<Rightarrow> run cfg os (While_cursor (insert_nulls cfg raw) 0) rest st)"
| "run cfg os (While_cursor buf cursor) inp st =
     (if cursor < length buf then
        (case locate cfg buf cursor of
           None \<Rightarrow> run cfg os Next_line inp st
         | Some c \<Rightarrow>
             (case process_token cfg os buf (cstring buf c) st of
                Fatal st' \<Rightarrow> (Exit 1, st')
              | Hung st' \<Rightarrow> (Hang, st')
              | Skipped st' \<Rightarrow> run cfg os (after_token cfg buf c) inp st'
              | Done st' \<Rightarrow> run cfg os (after_token cfg buf c) inp st'))
      else run cfg os Next_line inp st)"
  by pat_completeness auto
termination
proof (relation "measures
    [\<lambda>(cfg, os, l, inp, st). 2 * length inp + (case l of Next_line \<Rightarrow> 0 | While_cursor _ _ \<Rightarrow> 1),
     \<lambda>(cfg, os, l, inp, st). (case l of Next_line \<Rightarrow> 0 | While_cursor buf c \<Rightarrow> length buf - c)]",
    goal_cases)
  case 1
  show ?case by simp
next
  case (2 cfg os inp st x2 raw rest)
  then show ?case using getdelim_shorter [of "delimiter cfg" inp raw rest] by simp
next
  case (3 cfg os buf cursor inp st)
  show ?case by simp
next
  case (4 cfg os buf cursor inp st c st')
  from locate_Some [OF 4(2) 4(1)] skip_word_gt [of buf c]
  show ?case by (auto simp: after_token_def)
next
  case (5 cfg os buf cursor inp st c st')
  from locate_Some [OF 5(2) 5(1)] skip_word_gt [of buf c]
  show ?case by (auto simp: after_token_def)
next
  case (6 cfg os buf cursor inp st)
  show ?case by simp
qed

declare run.simps [simp del]

text \<open>
  \<open>main\<close> after option parsing (lines 149 to 305): the three checks, then the loop from
  \<open>next_line\<close> with nothing done yet.
\<close>

definition initial :: pstate where
  "initial = \<lparr>non_fatal_errors = False, opens = 0, trace = []\<rparr>"

definition main :: "config \<Rightarrow> world \<Rightarrow> string \<Rightarrow> outcome \<times> pstate" where
  "main cfg os inp =
     (if command cfg = [] then (Exit 1, say [Message ''No command specified.''] initial)
      else case dev_null_r os of
             Some e \<Rightarrow> (Exit 1, say [Diag ''/dev/null'' e] initial)
           | None \<Rightarrow>
               (case signal_r os of
                  Some e \<Rightarrow> (Exit 1, say [Diag ''signal'' e] initial)
                | None \<Rightarrow> run cfg os Next_line inp initial))"

section \<open>The tokens of an input, after the specification\<close>

text \<open>
  The Tokenizer of the specification (its section 4.1) and what is printed for a token (its
  section 4.2, step 8), written from the words of the specification and not from lines 193
  to 216 of the code: no null byte is written into a buffer and no cursor moves. The raw
  records are those of \<open>records\<close>, one per read. Two points follow the code where the
  specification is silent or differs: a token is a path, a C string, so it ends at the first
  null byte of its record; and an empty token is no token (line 214).
\<close>

text \<open>A trailing terminator, if present, is stripped.\<close>

definition strip_terminator :: "char \<Rightarrow> string \<Rightarrow> string" where
  "strip_terminator d raw = (if raw \<noteq> [] \<and> last raw = d then butlast raw else raw)"

text \<open>
  The words of a line: every run of separators is a boundary, and an empty or
  all-separator line has no word.
\<close>

function fields :: "(char \<Rightarrow> bool) \<Rightarrow> string \<Rightarrow> string list" where
  "fields sep xs =
     (case dropWhile sep xs of
        [] \<Rightarrow> []
      | y # ys \<Rightarrow> takeWhile (\<lambda>c. \<not> sep c) (y # ys) #
                 fields sep (dropWhile (\<lambda>c. \<not> sep c) (y # ys)))"
  by pat_completeness auto
termination
proof (relation "measure (\<lambda>(sep, xs). length xs)", goal_cases)
  case 1
  show ?case by simp
next
  case (2 sep xs y ys)
  from 2 have "\<not> sep y" using hd_dropWhile [of sep xs] by auto
  then have "length (dropWhile (\<lambda>c. \<not> sep c) (y # ys)) \<le> length ys"
    by (simp add: length_dropWhile_le)
  moreover have "length (y # ys) \<le> length xs"
    using 2 length_dropWhile_le [of sep xs] by simp
  ultimately show ?case by simp
qed

declare fields.simps [simp del]

text \<open>
  The tokens of one raw record, each with the bytes that are printed for it when it is
  emitted: the raw record itself in null-byte mode, the token's text and a line
  terminator in the two other modes. In white-space mode a null byte of the input counts
  as white space.
\<close>

definition spec_record_tokens :: "config \<Rightarrow> string \<Rightarrow> (string \<times> string) list" where
  "spec_record_tokens cfg raw =
     (if delimation cfg = ASCII_WHITESPACE_DELIMATION then
        map (\<lambda>w. (w, w @ [CHR 0x0A])) (fields (\<lambda>c. isspace c \<or> c = CHR 0x00) raw)
      else
        (let t = takeWhile (\<lambda>c. c \<noteq> CHR 0x00) (strip_terminator (delimiter cfg) raw)
         in if t = [] then []
            else [(t, if delimation cfg = NULL_BYTE_DELIMATION then raw else t @ [CHR 0x0A])]))"

text \<open>The tokens of an input, in the order of the input; the \<open>n\<close>-th one is token number \<open>n\<close>.\<close>

definition spec_tokens :: "config \<Rightarrow> string \<Rightarrow> (string \<times> string) list" where
  "spec_tokens cfg inp = concat (map (spec_record_tokens cfg) (records (delimiter cfg) inp))"

section \<open>Properties of runs\<close>

text \<open>A token gets its child: it opens, is no directory, and \<open>setenv\<close> and \<open>fork\<close> succeed.\<close>

definition spawns :: "os_response \<Rightarrow> bool" where
  "spawns r \<longleftrightarrow>
     open_r r = None \<and> fstat_r r = Inr False \<and> setenv_r r = None \<and> fork_r r = None"

text \<open>The child gets as far as running the command: its \<open>execvp\<close> does not fail.\<close>

fun exec_ok :: "child_behaviour \<Rightarrow> bool" where
  "exec_ok (Exec_fails e) = False"
| "exec_ok _ = True"

text \<open>The state in which a token leaves the program.\<close>

fun state_of :: "step \<Rightarrow> pstate" where
  "state_of (Fatal st) = st"
| "state_of (Hung st) = st"
| "state_of (Skipped st) = st"
| "state_of (Done st) = st"

text \<open>
  A \<open>Reaped\<close> event is classified as the program should: the code of a normal exit is
  the exit status, the code of a death by signal is 128 plus the signal number, and no
  other status is classified at all.
\<close>

fun classified :: "event \<Rightarrow> bool" where
  "classified (Reaped n (WExited c) return_code) = (return_code = c)"
| "classified (Reaped n (WSignaled s) return_code) = (return_code = s + 128)"
| "classified (Reaped n WOther return_code) = False"
| "classified _ = True"



text \<open>
  The results of \<open>wait\<close> reach an exit or a death by signal before any failure, and
  before they end.
\<close>

fun settled :: "wait_result list \<Rightarrow> bool" where
  "settled [] = False"
| "settled (Wait_fails e # ws) = False"
| "settled (Wait_status WOther # ws) = settled ws"
| "settled (Wait_status s # ws) = True"




text \<open>
  The tokens for which something was printed, and the tokens whose child was reaped with
  their classified codes, in the order of the trace.
\<close>

fun emitted_tokens :: "event list \<Rightarrow> nat list" where
  "emitted_tokens [] = []"
| "emitted_tokens (Emitted n b # es) = n # emitted_tokens es"
| "emitted_tokens (_ # es) = emitted_tokens es"

fun reaped_codes :: "event list \<Rightarrow> (nat \<times> int) list" where
  "reaped_codes [] = []"
| "reaped_codes (Reaped n s c # es) = (n, c) # reaped_codes es"
| "reaped_codes (_ # es) = reaped_codes es"

text \<open>The same configuration with the other polarity: \<open>-!\<close> given instead of not, or not instead of given.\<close>

definition toggled :: "config \<Rightarrow> config" where
  "toggled cfg = cfg\<lparr>display_on_success := \<not> display_on_success cfg\<rparr>"

text \<open>Two states that differ at most in what was printed.\<close>

definition alike :: "pstate \<Rightarrow> pstate \<Rightarrow> bool" where
  "alike st st' \<longleftrightarrow> non_fatal_errors st = non_fatal_errors st' \<and> opens st = opens st' \<and>
     reaped_codes (trace st) = reaped_codes (trace st')"

text \<open>
  The tokens printed are the reaped ones whose code passes the test of line 283, and no
  token is reaped twice.
\<close>

definition tidy :: "config \<Rightarrow> pstate \<Rightarrow> bool" where
  "tidy cfg st \<longleftrightarrow>
     emitted_tokens (trace st) =
       map fst (filter (\<lambda>(n, c). (display_on_success cfg \<and> c = 0) \<or>
                                (\<not> display_on_success cfg \<and> c \<noteq> 0)) (reaped_codes (trace st))) \<and>
     distinct (map fst (reaped_codes (trace st))) \<and>
     (\<forall>n\<in>set (map fst (reaped_codes (trace st))). n < opens st)"

text \<open>
  The tokens that the inner loop still finds in the buffer from the cursor on, read off the
  buffer as the code left it (with its null bytes written), with what is printed for each.
\<close>

definition buf_tokens :: "config \<Rightarrow> string \<Rightarrow> nat \<Rightarrow> (string \<times> string) list" where
  "buf_tokens cfg buf cursor =
     (if delimation cfg = ASCII_WHITESPACE_DELIMATION then
        map (\<lambda>w. (w, w @ [CHR 0x0A])) (fields (\<lambda>c. c = CHR 0x00) (drop cursor buf))
      else
        (let t = cstring buf cursor
         in if t = [] then []
            else [(t, if delimation cfg = NULL_BYTE_DELIMATION then buf else t @ [CHR 0x0A])]))"

text \<open>The tokens that are still to come at a label of the loop.\<close>

fun pending :: "config \<Rightarrow> label \<Rightarrow> string \<Rightarrow> (string \<times> string) list" where
  "pending cfg Next_line inp = spec_tokens cfg inp"
| "pending cfg (While_cursor buf cursor) inp = buf_tokens cfg buf cursor @ spec_tokens cfg inp"

text \<open>
  A trace agrees with a list of tokens: token number \<open>n\<close> of the trace is opened under the
  name of the \<open>n\<close>-th token of the list, and what is printed for it are the bytes of that
  token.
\<close>

definition token_trace :: "(string \<times> string) list \<Rightarrow> event list \<Rightarrow> bool" where
  "token_trace toks tr \<longleftrightarrow>
     (\<forall>n b. Emitted n b \<in> set tr \<longrightarrow> n < length toks \<and> b = snd (toks ! n)) \<and>
     (\<forall>n p. Open_call n p \<in> set tr \<longrightarrow> n < length toks \<and> p = fst (toks ! n))"

section \<open>Example worlds\<close>

definition exits_with :: "int \<Rightarrow> os_response" where
  "exits_with c = \<lparr>open_r = None, fstat_r = Inr False, setenv_r = None, fork_r = None,
                    child = Runs, waits = [Wait_status (WExited c)]\<rparr>"

definition no_such_file :: os_response where
  "no_such_file = (exits_with 0)\<lparr>open_r := Some ENOENT\<rparr>"

definition world_of :: "(nat \<Rightarrow> string \<Rightarrow> os_response) \<Rightarrow> world" where
  "world_of f = \<lparr>responses = f, stdin_error = None, dev_null_r = None, signal_r = None\<rparr>"

definition nothing_opens :: world where
  "nothing_opens = world_of (\<lambda>n p. no_such_file)"

definition fstat_breaks :: world where
  "fstat_breaks = world_of (\<lambda>n p. (exits_with 0)\<lparr>fstat_r := Inl EIO\<rparr>)"

definition no_such_command :: world where
  "no_such_command = world_of (\<lambda>n p. (exits_with 0)\<lparr>child := Exec_fails ENOENT\<rparr>)"

text \<open>The first \<open>wait\<close> is interrupted; a second call would have found the child.\<close>

definition wait_interrupted :: world where
  "wait_interrupted =
     world_of (\<lambda>n p. (exits_with 0)\<lparr>waits := [Wait_fails EINTR, Wait_status (WExited 0)]\<rparr>)"

text \<open>Every child is stopped once and then killed by signal 9.\<close>

definition killed_by_signal :: world where
  "killed_by_signal =
     world_of (\<lambda>n p. (exits_with 0)\<lparr>waits := [Wait_status WOther, Wait_status (WSignaled 9)]\<rparr>)"

text \<open>Every command succeeds.\<close>

definition all_succeed :: world where
  "all_succeed = world_of (\<lambda>n p. exits_with 0)"

text \<open>The command succeeds on the file \<open>a\<close> and fails on every other file.\<close>

definition mixed_results :: world where
  "mixed_results = world_of (\<lambda>n p. if p = ''a'' then exits_with 0 else exits_with 1)"

definition config_of :: "delimation_et \<Rightarrow> bool \<Rightarrow> config" where
  "config_of d b =
     \<lparr>delimation = d, display_on_success = b, redirect_stderr = False, command = [''cat'']\<rparr>"

lemmas example_defs = exits_with_def no_such_file_def world_of_def nothing_opens_def
  config_of_def fstat_breaks_def no_such_command_def wait_interrupted_def
  killed_by_signal_def all_succeed_def mixed_results_def

lemmas run_defs = main_def initial_def getdelim_def delimiter_def insert_nulls_def at_def
  locate_def cstring_def process_token_def wait_for_child_def say_def display_def
  after_token_def errout_fd_def

section \<open>The loop, one step at a time\<close>

lemma run_read:
  "getdelim (delimiter cfg) inp = Some (raw, rest) \<Longrightarrow>
   run cfg os Next_line inp st = run cfg os (While_cursor (insert_nulls cfg raw) 0) rest st"
  by (simp add: run.simps)

lemma run_no_token:
  "cursor < length buf \<Longrightarrow> locate cfg buf cursor = None \<Longrightarrow>
   run cfg os (While_cursor buf cursor) inp st = run cfg os Next_line inp st"
  by (simp add: run.simps)

lemma run_token:
  "cursor < length buf \<Longrightarrow> locate cfg buf cursor = Some c \<Longrightarrow>
   run cfg os (While_cursor buf cursor) inp st =
     (case process_token cfg os buf (cstring buf c) st of
        Fatal st' \<Rightarrow> (Exit 1, st')
      | Hung st' \<Rightarrow> (Hang, st')
      | Skipped st' \<Rightarrow> run cfg os (after_token cfg buf c) inp st'
      | Done st' \<Rightarrow> run cfg os (after_token cfg buf c) inp st')"
  by (simp add: run.simps)

text \<open>
  The rule for invariants of the loop: \<open>I\<close> holds at the two places of the loop, \<open>Q\<close>
  of the result of the run.
\<close>

lemma run_rule:
  assumes "I l inp st"
    and "\<And>st. I Next_line [] st \<Longrightarrow> stdin_error os = None \<Longrightarrow>
           Q (Exit (if non_fatal_errors st then 2 else 0), st)"
    and "\<And>st e. I Next_line [] st \<Longrightarrow> stdin_error os = Some e \<Longrightarrow>
           Q (Exit 1, say [Diag (getline_function cfg) e] st)"
    and "\<And>inp raw rest st. I Next_line inp st \<Longrightarrow> getdelim (delimiter cfg) inp = Some (raw, rest) \<Longrightarrow>
           I (While_cursor (insert_nulls cfg raw) 0) rest st"
    and "\<And>buf cursor inp st. I (While_cursor buf cursor) inp st \<Longrightarrow>
           cursor \<ge> length buf \<or> locate cfg buf cursor = None \<Longrightarrow> I Next_line inp st"
    and "\<And>buf cursor c inp st. I (While_cursor buf cursor) inp st \<Longrightarrow>
           cursor < length buf \<Longrightarrow> locate cfg buf cursor = Some c \<Longrightarrow>
           (case process_token cfg os buf (cstring buf c) st of
              Fatal st' \<Rightarrow> Q (Exit 1, st')
            | Hung st' \<Rightarrow> Q (Hang, st')
            | Skipped st' \<Rightarrow> I (after_token cfg buf c) inp st'
            | Done st' \<Rightarrow> I (after_token cfg buf c) inp st')"
  shows "Q (run cfg os l inp st)"
  using assms
proof (induction cfg os l inp st rule: run.induct)
  case (1 cfg os inp st)
  note inv = "1.prems"(1) and eof = "1.prems"(2) and err = "1.prems"(3) and read = "1.prems"(4)
    and rules = "1.prems"(2-6)
  show ?case
  proof (cases "getdelim (delimiter cfg) inp")
    case None
    then have "inp = []" by (simp add: getdelim_def split: if_splits)
    with inv have i: "I Next_line [] st" by simp
    show ?thesis
    proof (cases "stdin_error os")
      case None
      from eof [OF i None] None \<open>getdelim (delimiter cfg) inp = None\<close>
      show ?thesis by (simp add: run.simps)
    next
      case (Some e)
      from err [OF i Some] Some \<open>getdelim (delimiter cfg) inp = None\<close>
      show ?thesis by (simp add: run.simps)
    qed
  next
    case (Some x2)
    obtain raw rest where x2: "(raw, rest) = x2" by (cases x2) simp
    with Some have rd: "getdelim (delimiter cfg) inp = Some (raw, rest)" by simp
    from "1.IH" [OF Some x2 read [OF inv rd] rules]
    show ?thesis using rd by (simp add: run.simps)
  qed
next
  case (2 cfg os buf cursor inp st)
  note inv = "2.prems"(1) and no_tok = "2.prems"(5) and tok = "2.prems"(6)
    and rules = "2.prems"(2-6)
  show ?case
  proof (cases "cursor < length buf")
    case False
    then have "I Next_line inp st" using no_tok [OF inv] by simp
    from "2.IH"(4) [OF False this rules] False show ?thesis by (simp add: run.simps)
  next
    case True
    show ?thesis
    proof (cases "locate cfg buf cursor")
      case None
      then have "I Next_line inp st" using no_tok [OF inv] by simp
      from "2.IH"(1) [OF True None this rules] True None show ?thesis by (simp add: run.simps)
    next
      case (Some c)
      note t = tok [OF inv True Some]
      show ?thesis
      proof (cases "process_token cfg os buf (cstring buf c) st")
        case (Fatal st')
        with t True Some show ?thesis by (simp add: run.simps)
      next
        case (Hung st')
        with t True Some show ?thesis by (simp add: run.simps)
      next
        case (Skipped st')
        with t have "I (after_token cfg buf c) inp st'" by simp
        from "2.IH"(2) [OF True Some Skipped this rules] True Some Skipped
        show ?thesis by (simp add: run.simps)
      next
        case (Done st')
        with t have "I (after_token cfg buf c) inp st'" by simp
        from "2.IH"(3) [OF True Some Done this rules] True Some Done
        show ?thesis by (simp add: run.simps)
      qed
    qed
  qed
qed

lemma skip_nulls_all_null:
  "\<forall>c\<in>set buf. c = CHR 0x00 \<Longrightarrow> skip_nulls buf cursor = None"
proof (induction buf cursor rule: skip_nulls.induct)
  case (1 buf cursor)
  have z: "at buf cursor = CHR 0x00"
    using "1.prems" by (simp add: at_def)
  show ?case
  proof (cases "cursor \<ge> length buf")
    case True
    with z show ?thesis by (simp add: skip_nulls.simps [of buf cursor])
  next
    case False
    with "1.IH" [OF z False "1.prems"] z show ?thesis
      by (simp add: skip_nulls.simps [of buf cursor])
  qed
qed




section \<open>What one token adds to the trace\<close>

lemma wait_loop_others:
  "wait_loop n (replicate k (Wait_status WOther) @ ws) =
     (replicate k (Wait_other n) @ fst (wait_loop n ws), snd (wait_loop n ws))"
  by (induction k) (simp_all add: case_prod_beta)

lemma process_token_waits:
  assumes "spawns (responses os (opens st) tok)"
    and "exec_ok (child (responses os (opens st) tok))"
  shows "process_token cfg os line tok st =
     wait_for_child cfg (opens st) line tok (waits (responses os (opens st) tok))
       (st\<lparr>opens := opens st + 1,
           trace := trace st @ [Open_call (opens st) tok, Setenv (opens st) tok, Fork (opens st)] @
             (case child (responses os (opens st) tok) of
                Dup2_fails d \<Rightarrow> [Child_diag Stderr ''dup2'' d] | _ \<Rightarrow> [])\<rparr>)"
  using assms
  by (cases "child (responses os (opens st) tok)")
     (simp_all add: process_token_def Let_def spawns_def say_def)

lemma wait_loop_shape:
  "wait_loop n ws = (es, w) \<Longrightarrow>
   \<exists>k tl. es = replicate k (Wait_other n) @ tl \<and>
     (case w of
        W_block \<Rightarrow> tl = []
      | W_fail e \<Rightarrow> tl = [Diag ''wait'' e]
      | W_code c \<Rightarrow> (\<exists>s. tl = [Reaped n s c] \<and> classified (Reaped n s c)))"
proof (induction n ws arbitrary: es w rule: wait_loop.induct)
  case (1 n)
  then show ?case by simp
next
  case (2 n e ws)
  then have "es = [Diag ''wait'' e]" and "w = W_fail e" by auto
  then show ?case
    by (intro exI [of _ 0] exI [of _ "[Diag ''wait'' e]"]) simp
next
  case (3 n c ws)
  then have "es = [Reaped n (WExited c) c]" and "w = W_code c" by auto
  then show ?case
    by (intro exI [of _ 0] exI [of _ "[Reaped n (WExited c) c]"]) simp
next
  case (4 n s ws)
  then have "es = [Reaped n (WSignaled s) (s + 128)]" and "w = W_code (s + 128)" by auto
  then show ?case
    by (intro exI [of _ 0] exI [of _ "[Reaped n (WSignaled s) (s + 128)]"]) simp
next
  case (5 n ws)
  obtain es1 w1 where w1: "wait_loop n ws = (es1, w1)" by (cases "wait_loop n ws")
  with "5.prems" have w: "w = w1" and es: "es = Wait_other n # es1" by auto
  from "5.IH" [OF w1] obtain k tl where es1: "es1 = replicate k (Wait_other n) @ tl"
    and tl: "(case w1 of W_block \<Rightarrow> tl = [] | W_fail e \<Rightarrow> tl = [Diag ''wait'' e]
      | W_code c \<Rightarrow> (\<exists>s. tl = [Reaped n s c] \<and> classified (Reaped n s c)))"
    by blast
  from es es1 have "es = replicate (Suc k) (Wait_other n) @ tl" by simp
  with tl w show ?case by blast
qed

lemma wait_for_child_cases:
  obtains
    (Still_waiting) k where
      "wait_for_child cfg n line tok ws st = Hung (say (replicate k (Wait_other n)) st)"
  | (Wait_error) k e where
      "wait_for_child cfg n line tok ws st =
         Fatal (say (replicate k (Wait_other n) @ [Diag ''wait'' e]) st)"
  | (Reaped_child) k s c where
      "wait_for_child cfg n line tok ws st =
         Done (say (replicate k (Wait_other n) @ Reaped n s c # display cfg n line tok c) st)"
      "classified (Reaped n s c)"
proof -
  obtain es w where w: "wait_loop n ws = (es, w)" by (cases "wait_loop n ws")
  from wait_loop_shape [OF w] obtain k tl where es: "es = replicate k (Wait_other n) @ tl"
    and tl: "(case w of W_block \<Rightarrow> tl = [] | W_fail e \<Rightarrow> tl = [Diag ''wait'' e]
      | W_code c \<Rightarrow> (\<exists>s. tl = [Reaped n s c] \<and> classified (Reaped n s c)))"
    by blast
  show thesis
  proof (cases w)
    case (W_code c)
    with tl obtain s where "tl = [Reaped n s c]" and "classified (Reaped n s c)" by auto
    with w es W_code Reaped_child [of k s c] show ?thesis by (simp add: wait_for_child_def)
  next
    case (W_fail e)
    with tl w es Wait_error [of k e] show ?thesis by (simp add: wait_for_child_def)
  next
    case W_block
    with tl w es Still_waiting [of k] show ?thesis by (simp add: wait_for_child_def)
  qed
qed

lemma process_token_cases:
  obtains
    (Skip) e where
      "process_token cfg os line tok st =
         Skipped (st\<lparr>non_fatal_errors := True, opens := opens st + 1,
                     trace := trace st @ [Open_call (opens st) tok, Diag tok e]\<rparr>)"
  | (Early) es where
      "process_token cfg os line tok st =
         Fatal (st\<lparr>opens := opens st + 1, trace := trace st @ Open_call (opens st) tok # es\<rparr>)"
      "\<exists>e. es = [Diag tok e] \<or> es = [Diag ''setenv'' e]
           \<or> es = [Setenv (opens st) tok, Diag ''fork'' e]"
  | (Exec) e where
      "process_token cfg os line tok st =
         Fatal (st\<lparr>opens := opens st + 1,
                   trace := trace st @ [Open_call (opens st) tok, Setenv (opens st) tok,
                      Fork (opens st), Child_diag (errout_fd cfg) (hd (command cfg)) e, Sigusr1]\<rparr>)"
  | (Hung) cd k where
      "process_token cfg os line tok st =
         Hung (st\<lparr>opens := opens st + 1,
                  trace := trace st @ Open_call (opens st) tok # Setenv (opens st) tok #
                     Fork (opens st) # cd @ replicate k (Wait_other (opens st))\<rparr>)"
      "cd = [] \<or> (\<exists>e. cd = [Child_diag Stderr ''dup2'' e])"
  | (Wait_failed) cd k e where
      "process_token cfg os line tok st =
         Fatal (st\<lparr>opens := opens st + 1,
                   trace := trace st @ Open_call (opens st) tok # Setenv (opens st) tok #
                     Fork (opens st) # cd @ replicate k (Wait_other (opens st)) @ [Diag ''wait'' e]\<rparr>)"
      "cd = [] \<or> (\<exists>e. cd = [Child_diag Stderr ''dup2'' e])"
  | (Done) cd k s c where
      "process_token cfg os line tok st =
         Done (st\<lparr>opens := opens st + 1,
                  trace := trace st @ Open_call (opens st) tok # Setenv (opens st) tok #
                     Fork (opens st) # cd @ replicate k (Wait_other (opens st)) @
                     Reaped (opens st) s c # display cfg (opens st) line tok c\<rparr>)"
      "cd = [] \<or> (\<exists>e. cd = [Child_diag Stderr ''dup2'' e])"
      "classified (Reaped (opens st) s c)"
proof -
  let ?n = "opens st"
  let ?r = "responses os ?n tok"
  let ?st1 = "say [Open_call ?n tok] (st\<lparr>opens := ?n + 1\<rparr>)"
  have waited: thesis
    if pt: "process_token cfg os line tok st =
              wait_for_child cfg ?n line tok (waits ?r) (say (Setenv ?n tok # Fork ?n # cd) ?st1)"
      and cd: "cd = [] \<or> (\<exists>e. cd = [Child_diag Stderr ''dup2'' e])" for cd
  proof (cases rule: wait_for_child_cases
      [of cfg ?n line tok "waits ?r" "say (Setenv ?n tok # Fork ?n # cd) ?st1"])
    case (Still_waiting k)
    with pt cd Hung [of cd k] show ?thesis by (simp add: say_def)
  next
    case (Wait_error k e)
    with pt cd Wait_failed [of cd k e] show ?thesis by (simp add: say_def)
  next
    case (Reaped_child k s c)
    with pt cd Done [of cd k s c] show ?thesis by (simp add: say_def)
  qed
  show thesis
  proof (cases "open_r ?r")
    case (Some e)
    with Skip [of e] show ?thesis by (simp add: process_token_def say_def Let_def)
  next
    case None
    note op = this
    show ?thesis
    proof (cases "fstat_r ?r")
      case (Inl e)
      have sh: "\<exists>e'. [Diag tok e] = [Diag tok e'] \<or> [Diag tok e] = [Diag ''setenv'' e']
           \<or> [Diag tok e] = [Setenv (opens st) tok, Diag ''fork'' e']" by blast
      have "process_token cfg os line tok st =
         Fatal (st\<lparr>opens := opens st + 1, trace := trace st @ Open_call (opens st) tok # [Diag tok e]\<rparr>)"
        using op Inl by (simp add: process_token_def say_def Let_def)
      from Early [OF this sh] show ?thesis .
    next
      case (Inr dir)
      note fs = this
      show ?thesis
      proof (cases dir)
        case True
        with op fs Skip [of EISDIR] show ?thesis by (simp add: process_token_def say_def Let_def)
      next
        case False
        note nd = this
        show ?thesis
        proof (cases "setenv_r ?r")
          case (Some e)
      have sh: "\<exists>e'. [Diag ''setenv'' e] = [Diag tok e'] \<or> [Diag ''setenv'' e] = [Diag ''setenv'' e']
           \<or> [Diag ''setenv'' e] = [Setenv (opens st) tok, Diag ''fork'' e']" by blast
      have "process_token cfg os line tok st =
         Fatal (st\<lparr>opens := opens st + 1, trace := trace st @ Open_call (opens st) tok # [Diag ''setenv'' e]\<rparr>)"
        using op fs nd Some by (simp add: process_token_def say_def Let_def)
      from Early [OF this sh] show ?thesis .
        next
          case None
          note se = this
          show ?thesis
          proof (cases "fork_r ?r")
            case (Some e)
      have sh: "\<exists>e'. [Setenv (opens st) tok, Diag ''fork'' e] = [Diag tok e'] \<or> [Setenv (opens st) tok, Diag ''fork'' e] = [Diag ''setenv'' e']
           \<or> [Setenv (opens st) tok, Diag ''fork'' e] = [Setenv (opens st) tok, Diag ''fork'' e']" by blast
      have "process_token cfg os line tok st =
         Fatal (st\<lparr>opens := opens st + 1, trace := trace st @ Open_call (opens st) tok # [Setenv (opens st) tok, Diag ''fork'' e]\<rparr>)"
        using op fs nd se Some by (simp add: process_token_def say_def Let_def)
      from Early [OF this sh] show ?thesis .
          next
            case None
            note fk = this
            show ?thesis
            proof (cases "child ?r")
              case (Exec_fails e)
              with op fs nd se fk Exec [of e] show ?thesis
                by (simp add: process_token_def say_def Let_def)
            next
              case (Dup2_fails e)
              with op fs nd se fk show ?thesis
                by (intro waited [of "[Child_diag Stderr ''dup2'' e]"])
                   (simp_all add: process_token_def Let_def)
            next
              case Runs
              with op fs nd se fk show ?thesis
                by (intro waited [of "[]"]) (simp_all add: process_token_def Let_def)
            qed
          qed
        qed
      qed
    qed
  qed
qed

section \<open>The order of fork, wait and open\<close>

lemma wait_loop_events:
  "Open_call m p \<notin> set (fst (wait_loop n ws))"
  "Fork m \<notin> set (fst (wait_loop n ws))"
  "(\<exists>s c. Reaped m s c \<in> set (fst (wait_loop n ws))) \<longleftrightarrow> m = n \<and> settled ws"
  "(\<exists>c. snd (wait_loop n ws) = W_code c) \<longleftrightarrow> settled ws"
  by (induction n ws rule: wait_loop.induct) (auto split: prod.splits, blast)

lemma display_events:
  "Open_call m p \<notin> set (display cfg n line tok c)"
  "Fork m \<notin> set (display cfg n line tok c)"
  "Reaped m s x \<notin> set (display cfg n line tok c)"
  by (simp_all add: display_def)

lemma wait_for_child_trace:
  "trace (state_of (wait_for_child cfg n line tok ws st)) =
     trace st @ fst (wait_loop n ws) @
       (case snd (wait_loop n ws) of W_code c \<Rightarrow> display cfg n line tok c | _ \<Rightarrow> [])"
  "opens (state_of (wait_for_child cfg n line tok ws st)) = opens st"
  by (cases "wait_loop n ws"; simp add: wait_for_child_def say_def split: waited.splits)+

lemma wait_for_child_events:
  "Open_call m p \<in> set (trace (state_of (wait_for_child cfg n line tok ws st))) \<longleftrightarrow>
     Open_call m p \<in> set (trace st)"
  "Fork m \<in> set (trace (state_of (wait_for_child cfg n line tok ws st))) \<longleftrightarrow>
     Fork m \<in> set (trace st)"
  "(\<exists>s c. Reaped m s c \<in> set (trace (state_of (wait_for_child cfg n line tok ws st)))) \<longleftrightarrow>
     (\<exists>s c. Reaped m s c \<in> set (trace st)) \<or> (m = n \<and> settled ws)"
proof -
  show "Open_call m p \<in> set (trace (state_of (wait_for_child cfg n line tok ws st))) \<longleftrightarrow>
     Open_call m p \<in> set (trace st)"
    by (simp add: wait_for_child_trace wait_loop_events display_events split: waited.splits)
  show "Fork m \<in> set (trace (state_of (wait_for_child cfg n line tok ws st))) \<longleftrightarrow>
     Fork m \<in> set (trace st)"
    by (simp add: wait_for_child_trace wait_loop_events display_events split: waited.splits)
  have "(\<exists>s c. Reaped m s c \<in> set (trace (state_of (wait_for_child cfg n line tok ws st)))) \<longleftrightarrow>
     (\<exists>s c. Reaped m s c \<in> set (trace st)) \<or> (\<exists>s c. Reaped m s c \<in> set (fst (wait_loop n ws)))"
    by (auto simp: wait_for_child_trace display_events split: waited.splits)
  then show "(\<exists>s c. Reaped m s c \<in> set (trace (state_of (wait_for_child cfg n line tok ws st)))) \<longleftrightarrow>
     (\<exists>s c. Reaped m s c \<in> set (trace st)) \<or> (m = n \<and> settled ws)"
    by (simp add: wait_loop_events)
qed

lemma process_token_events:
  fixes cfg os line tok st
  defines "st' \<equiv> state_of (process_token cfg os line tok st)"
    and "r \<equiv> responses os (opens st) tok"
  shows "opens st' = opens st + 1"
    and "Open_call m p \<in> set (trace st') \<longleftrightarrow>
           Open_call m p \<in> set (trace st) \<or> (m = opens st \<and> p = tok)"
    and "Fork m \<in> set (trace st') \<longleftrightarrow> Fork m \<in> set (trace st) \<or> (m = opens st \<and> spawns r)"
    and "(\<exists>s c. Reaped m s c \<in> set (trace st')) \<longleftrightarrow>
           (\<exists>s c. Reaped m s c \<in> set (trace st)) \<or>
           (m = opens st \<and> spawns r \<and> exec_ok (child r) \<and> settled (waits r))"
proof -
  show "opens st' = opens st + 1"
    unfolding st'_def
    by (simp add: process_token_def Let_def say_def wait_for_child_trace
        split: option.splits sum.splits bool.splits child_behaviour.splits)
  show "Open_call m p \<in> set (trace st') \<longleftrightarrow>
           Open_call m p \<in> set (trace st) \<or> (m = opens st \<and> p = tok)"
    unfolding st'_def
    by (auto simp: process_token_def Let_def say_def wait_for_child_events
        split: option.splits sum.splits bool.splits child_behaviour.splits)
  show "Fork m \<in> set (trace st') \<longleftrightarrow> Fork m \<in> set (trace st) \<or> (m = opens st \<and> spawns r)"
    unfolding st'_def r_def
    by (auto simp: process_token_def Let_def say_def wait_for_child_events spawns_def
        split: option.splits sum.splits bool.splits child_behaviour.splits)
  show "(\<exists>s c. Reaped m s c \<in> set (trace st')) \<longleftrightarrow>
           (\<exists>s c. Reaped m s c \<in> set (trace st)) \<or>
           (m = opens st \<and> spawns r \<and> exec_ok (child r) \<and> settled (waits r))"
    unfolding st'_def r_def
    by (auto simp: process_token_def Let_def say_def wait_for_child_events spawns_def
        split: option.splits sum.splits bool.splits child_behaviour.splits)
qed






section \<open>Tokens and records\<close>

lemma records_read:
  "getdelim d inp = Some (raw, rest) \<Longrightarrow> records d inp = raw # records d rest"
  by (simp add: records.simps [of d inp])

lemma read_record_terminated:
  "read_record d inp = (raw, rest) \<Longrightarrow>
   raw = takeWhile (\<lambda>c. c \<noteq> d) raw @ [d] \<or> raw = takeWhile (\<lambda>c. c \<noteq> d) raw"
proof (induction inp arbitrary: raw rest)
  case Nil
  then show ?case by simp
next
  case (Cons c cs)
  show ?case
  proof (cases "c = d")
    case True
    with Cons.prems have "raw = [d]" by auto
    then show ?thesis by simp
  next
    case False
    obtain l r where lr: "read_record d cs = (l, r)" by (cases "read_record d cs")
    with Cons.prems False have raw: "raw = c # l" by simp
    from Cons.IH [OF lr] raw False show ?thesis by auto
  qed
qed

lemma records_terminated:
  "r \<in> set (records d inp) \<Longrightarrow>
   r = takeWhile (\<lambda>c. c \<noteq> d) r @ [d] \<or> r = takeWhile (\<lambda>c. c \<noteq> d) r"
proof (induction d inp rule: records.induct)
  case (1 d inp)
  show ?case
  proof (cases "getdelim d inp")
    case None
    with "1.prems" show ?thesis by (simp add: records.simps [of d inp])
  next
    case (Some x)
    obtain raw rest where x: "x = (raw, rest)" by (cases x)
    with Some have rd: "getdelim d inp = Some (raw, rest)" by simp
    from "1.prems" records_read [OF rd] have "r = raw \<or> r \<in> set (records d rest)" by auto
    then show ?thesis
    proof
      assume "r = raw"
      moreover from rd have "read_record d inp = (raw, rest)"
        by (simp add: getdelim_def split: if_splits)
      ultimately show ?thesis using read_record_terminated by blast
    next
      assume "r \<in> set (records d rest)"
      from "1.IH" [OF Some x [symmetric] this] show ?thesis .
    qed
  qed
qed

lemma display_emits:
  "Emitted m b \<in> set (display cfg n line tok c) \<Longrightarrow>
   m = n \<and> b = (if delimation cfg = NULL_BYTE_DELIMATION then line else tok @ [CHR 0x0A])"
  by (auto simp: display_def split: if_splits)

lemma fields_Nil:
  assumes "dropWhile sep xs = []"
  shows "fields sep xs = []"
  by (subst fields.simps) (simp only: assms list.case)

lemma fields_Cons:
  assumes "dropWhile sep xs = ys" and "ys \<noteq> []"
  shows "fields sep xs =
         takeWhile (\<lambda>c. \<not> sep c) ys # fields sep (dropWhile (\<lambda>c. \<not> sep c) ys)"
proof -
  from assms(2) obtain y zs where ys: "ys = y # zs" by (cases ys) auto
  show ?thesis
    by (subst fields.simps) (simp only: assms(1) ys list.case)
qed

lemma fields_no_sep: "w \<in> set (fields sep xs) \<Longrightarrow> c \<in> set w \<Longrightarrow> \<not> sep c"
proof (induction sep xs rule: fields.induct)
  case (1 sep xs)
  show ?case
  proof (cases "dropWhile sep xs")
    case Nil
    with "1.prems" show ?thesis by (simp add: fields_Nil)
  next
    case (Cons y ys)
    with "1.prems"(1) fields_Cons [of sep xs "y # ys"]
    consider "w = takeWhile (\<lambda>c. \<not> sep c) (y # ys)"
      | "w \<in> set (fields sep (dropWhile (\<lambda>c. \<not> sep c) (y # ys)))" by auto
    then show ?thesis
    proof cases
      case 1
      with "1.prems"(2) show ?thesis by (auto dest: set_takeWhileD)
    next
      case 2
      from "1.IH" [OF Cons 2 "1.prems"(2)] show ?thesis .
    qed
  qed
qed

lemma fields_map:
  assumes "\<And>c. sep' (f c) \<longleftrightarrow> sep c"
  shows "fields sep' (map f xs) = map (map f) (fields sep xs)"
  using assms
proof (induction sep xs rule: fields.induct)
  case (1 sep xs)
  note same = "1.prems"
  have dw: "dropWhile sep' (map f zs) = map f (dropWhile sep zs)" for zs
    by (induction zs) (simp_all add: same)
  have dn: "dropWhile (\<lambda>c. \<not> sep' c) (map f zs) = map f (dropWhile (\<lambda>c. \<not> sep c) zs)" for zs
    by (induction zs) (simp_all add: same)
  have tn: "takeWhile (\<lambda>c. \<not> sep' c) (map f zs) = map f (takeWhile (\<lambda>c. \<not> sep c) zs)" for zs
    by (induction zs) (simp_all add: same)
  show ?case
  proof (cases "dropWhile sep xs")
    case Nil
    with dw [of xs] show ?thesis by (simp add: fields_Nil)
  next
    case (Cons y ys)
    with dw [of xs] have d': "dropWhile sep' (map f xs) = map f (y # ys)" by simp
    have "fields sep' (map f xs) =
        takeWhile (\<lambda>c. \<not> sep' c) (map f (y # ys)) #
        fields sep' (dropWhile (\<lambda>c. \<not> sep' c) (map f (y # ys)))"
      by (rule fields_Cons [OF d']) simp
    also have "\<dots> = map f (takeWhile (\<lambda>c. \<not> sep c) (y # ys)) #
        fields sep' (map f (dropWhile (\<lambda>c. \<not> sep c) (y # ys)))"
      by (simp only: tn dn)
    also have "\<dots> = map f (takeWhile (\<lambda>c. \<not> sep c) (y # ys)) #
        map (map f) (fields sep (dropWhile (\<lambda>c. \<not> sep c) (y # ys)))"
      using "1.IH" [OF Cons same] by simp
    also have "\<dots> = map (map f) (fields sep xs)"
      using fields_Cons [of sep xs "y # ys"] Cons by simp
    finally show ?thesis .
  qed
qed

lemma fields_insert_nulls:
  assumes "delimation cfg = ASCII_WHITESPACE_DELIMATION"
  shows "fields (\<lambda>c. c = CHR 0x00) (insert_nulls cfg raw) =
         fields (\<lambda>c. isspace c \<or> c = CHR 0x00) raw"
proof -
  let ?f = "\<lambda>c. if isspace c then CHR 0x00 else c"
  let ?sep = "\<lambda>c. isspace c \<or> c = CHR 0x00"
  have "fields (\<lambda>c. c = CHR 0x00) (map ?f raw) = map (map ?f) (fields ?sep raw)"
    by (rule fields_map) simp
  moreover have "map (map ?f) (fields ?sep raw) = fields ?sep raw"
  proof -
    have "map ?f w = w" if "w \<in> set (fields ?sep raw)" for w
    proof -
      from fields_no_sep [OF that] have "\<And>c. c \<in> set w \<Longrightarrow> \<not> isspace c" by blast
      then show ?thesis by (induction w) simp_all
    qed
    then show ?thesis by (simp add: map_idI)
  qed
  ultimately show ?thesis using assms by (simp add: insert_nulls_def)
qed

lemma drop_at: "c < length buf \<Longrightarrow> drop c buf = at buf c # drop (Suc c) buf"
  by (simp add: at_def Cons_nth_drop_Suc)

lemma skip_word_length:
  "skip_word buf c = c + length (takeWhile (\<lambda>x. x \<noteq> CHR 0x00) (drop c buf))"
proof (induction buf c rule: skip_word.induct)
  case (1 buf c)
  show ?case
  proof (cases "at buf c \<noteq> CHR 0x00")
    case True
    then have lt: "c < length buf" by (auto simp: at_def split: if_splits)
    from "1.IH" [OF True] True drop_at [OF lt] show ?thesis
      by (simp add: skip_word.simps [of buf c])
  next
    case False
    then have "takeWhile (\<lambda>x. x \<noteq> CHR 0x00) (drop c buf) = []"
      by (cases "c < length buf") (simp_all add: drop_at)
    with False show ?thesis by (simp add: skip_word.simps [of buf c])
  qed
qed

lemma drop_skip_word:
  "dropWhile (\<lambda>x. x \<noteq> CHR 0x00) (drop c buf) = drop (skip_word buf c) buf"
  by (simp add: dropWhile_eq_drop skip_word_length add.commute)

lemma skip_nulls_drop:
  "skip_nulls buf c = None \<Longrightarrow> dropWhile (\<lambda>x. x = CHR 0x00) (drop c buf) = []"
  "skip_nulls buf c = Some c' \<Longrightarrow> dropWhile (\<lambda>x. x = CHR 0x00) (drop c buf) = drop c' buf"
proof (induction buf c rule: skip_nulls.induct)
  case (1 buf c)
  {
    case 1
    show ?case
    proof (cases "c < length buf")
      case True
      with 1 have z: "at buf c = CHR 0x00" and rec: "skip_nulls buf (c + 1) = None"
        by (auto simp: skip_nulls.simps [of buf c] split: if_splits)
      from True have "\<not> length buf \<le> c" by simp
      from "1.IH"(1) [OF z this rec] z drop_at [OF True] show ?thesis by simp
    next
      case False
      then show ?thesis by simp
    qed
  next
    case 2
    from skip_nulls_Some [OF 2] have lt': "c' < length buf" and "c \<le> c'" by simp_all
    then have lt: "c < length buf" by simp
    show ?case
    proof (cases "at buf c = CHR 0x00")
      case True
      with 2 lt have rec: "skip_nulls buf (c + 1) = Some c'"
        by (auto simp: skip_nulls.simps [of buf c] split: if_splits)
      from lt have "\<not> length buf \<le> c" by simp
      from "1.IH"(2) [OF True this rec] True drop_at [OF lt] show ?thesis by simp
    next
      case False
      with 2 have "c' = c" by (simp add: skip_nulls.simps [of buf c])
      with False drop_at [OF lt] show ?thesis by simp
    qed
  }
qed

lemma takeWhile_stop: "\<not> P z \<Longrightarrow> takeWhile P (xs @ [z]) = takeWhile P xs"
  by (induction xs) simp_all

lemma takeWhile_strip:
  "takeWhile (\<lambda>c. c \<noteq> CHR 0x00) (butlast xs @ [CHR 0x00]) =
   takeWhile (\<lambda>c. c \<noteq> CHR 0x00) (butlast xs)"
  by (rule takeWhile_stop) simp

lemma buf_tokens_first: "buf_tokens cfg (insert_nulls cfg raw) 0 = spec_record_tokens cfg raw"
proof (cases "delimation cfg")
  case ASCII_WHITESPACE_DELIMATION
  then show ?thesis
    by (simp add: buf_tokens_def spec_record_tokens_def fields_insert_nulls)
next
  case LINE_DELIMATION
  have "cstring (insert_nulls cfg raw) 0 =
      takeWhile (\<lambda>c. c \<noteq> CHR 0x00) (strip_terminator (CHR 0x0A) raw)"
  proof (cases "raw \<noteq> [] \<and> last raw = CHR 0x0A")
    case True
    then have "at raw (length raw - 1) = CHR 0x0A"
      using last_conv_nth [of raw] by (simp add: at_def)
    moreover from True have "raw[length raw - 1 := CHR 0x00] = butlast raw @ [CHR 0x00]"
      by (cases raw rule: rev_cases) simp_all
    ultimately show ?thesis using True LINE_DELIMATION
      by (simp add: insert_nulls_def cstring_def strip_terminator_def takeWhile_strip)
  next
    case False
    then have "at raw (length raw - 1) \<noteq> CHR 0x0A"
      using last_conv_nth [of raw] by (cases "raw = []") (simp_all add: at_def)
    with False LINE_DELIMATION show ?thesis
      by (auto simp: insert_nulls_def cstring_def strip_terminator_def)
  qed
  with LINE_DELIMATION show ?thesis
    by (simp add: buf_tokens_def spec_record_tokens_def delimiter_def Let_def)
next
  case NULL_BYTE_DELIMATION
  have "cstring raw 0 = takeWhile (\<lambda>c. c \<noteq> CHR 0x00) (strip_terminator (CHR 0x00) raw)"
  proof (cases "raw \<noteq> [] \<and> last raw = CHR 0x00")
    case True
    then have "raw = butlast raw @ [CHR 0x00]" by (metis append_butlast_last_id)
    then have "takeWhile (\<lambda>c. c \<noteq> CHR 0x00) raw =
        takeWhile (\<lambda>c. c \<noteq> CHR 0x00) (butlast raw)"
      using takeWhile_strip [of raw] by simp
    with True show ?thesis by (simp add: cstring_def strip_terminator_def)
  next
    case False
    then show ?thesis by (auto simp: cstring_def strip_terminator_def)
  qed
  with NULL_BYTE_DELIMATION show ?thesis
    by (simp add: buf_tokens_def spec_record_tokens_def delimiter_def insert_nulls_def Let_def)
qed

lemma buf_tokens_none:
  assumes "cursor \<ge> length buf \<or> locate cfg buf cursor = None"
  shows "buf_tokens cfg buf cursor = []"
proof (cases "cursor < length buf")
  case False
  then show ?thesis by (simp add: buf_tokens_def cstring_def fields_Nil Let_def)
next
  case True
  with assms have none: "locate cfg buf cursor = None" by simp
  show ?thesis
  proof (cases "delimation cfg = ASCII_WHITESPACE_DELIMATION")
    case True
    with none have "skip_nulls buf cursor = None" by (simp add: locate_def)
    from skip_nulls_drop(1) [OF this] True show ?thesis
      by (simp add: buf_tokens_def fields_Nil)
  next
    case False
    with none have "at buf cursor = CHR 0x00" by (simp add: locate_def split: if_splits)
    with \<open>cursor < length buf\<close> have "cstring buf cursor = []"
      by (simp add: cstring_def drop_at)
    with False show ?thesis by (simp add: buf_tokens_def Let_def)
  qed
qed

lemma buf_tokens_some:
  assumes "cursor < length buf" and "locate cfg buf cursor = Some c"
    and that: "rest = spec_tokens cfg inp"
  shows "buf_tokens cfg buf cursor @ rest =
     (cstring buf c,
      if delimation cfg = NULL_BYTE_DELIMATION then buf else cstring buf c @ [CHR 0x0A]) #
     pending cfg (after_token cfg buf c) inp"
proof (cases "delimation cfg = ASCII_WHITESPACE_DELIMATION")
  case True
  with assms(2) have sn: "skip_nulls buf cursor = Some c" by (simp add: locate_def)
  from skip_nulls_Some [OF sn] have "drop c buf \<noteq> []" by simp
  with skip_nulls_drop(2) [OF sn]
  have "fields (\<lambda>x. x = CHR 0x00) (drop cursor buf) =
      takeWhile (\<lambda>x. \<not> x = CHR 0x00) (drop c buf) #
      fields (\<lambda>x. x = CHR 0x00) (dropWhile (\<lambda>x. \<not> x = CHR 0x00) (drop c buf))"
    by (intro fields_Cons) simp_all
  then have "fields (\<lambda>x. x = CHR 0x00) (drop cursor buf) =
      cstring buf c # fields (\<lambda>x. x = CHR 0x00) (drop (skip_word buf c) buf)"
    using drop_skip_word [of c buf] by (simp add: cstring_def)
  with True that show ?thesis by (simp add: buf_tokens_def after_token_def Let_def)
next
  case False
  with assms(2) have c: "c = cursor" and nz: "at buf cursor \<noteq> CHR 0x00"
    by (auto simp: locate_def split: if_splits)
  with assms(1) have "cstring buf cursor \<noteq> []" by (simp add: cstring_def drop_at)
  with False c that show ?thesis by (simp add: buf_tokens_def after_token_def Let_def)
qed

lemma spec_tokens_read:
  "getdelim (delimiter cfg) inp = Some (raw, rest) \<Longrightarrow>
   spec_tokens cfg inp = spec_record_tokens cfg raw @ spec_tokens cfg rest"
  by (simp add: spec_tokens_def records_read)

lemma process_token_emitted:
  assumes "Emitted m b \<in> set (trace (state_of (process_token cfg os line tok st)))"
  shows "Emitted m b \<in> set (trace st) \<or>
         (m = opens st \<and>
          b = (if delimation cfg = NULL_BYTE_DELIMATION then line else tok @ [CHR 0x0A]))"
proof (cases rule: process_token_cases [of cfg os line tok st])
  case (Skip e)
  with assms show ?thesis by simp
next
  case (Early es)
  with assms show ?thesis by auto
next
  case (Exec e)
  with assms show ?thesis by simp
next
  case (Hung cd k)
  with assms show ?thesis by auto
next
  case (Wait_failed cd k e)
  with assms show ?thesis by auto
next
  case (Done cd k s c)
  with assms have "Emitted m b \<in> set (trace st) \<or>
      Emitted m b \<in> set (display cfg (opens st) line tok c)"
    by auto
  with display_emits [of m b cfg "opens st" line tok c] show ?thesis by blast
qed

lemma token_trace_step:
  assumes tt: "token_trace toks (trace st)"
    and toks: "toks = before @ (tok, out) # later"
    and len: "length before = opens st"
    and out: "out = (if delimation cfg = NULL_BYTE_DELIMATION then line else tok @ [CHR 0x0A])"
  shows "token_trace toks (trace (state_of (process_token cfg os line tok st)))"
proof -
  let ?st' = "state_of (process_token cfg os line tok st)"
  from toks len have here: "opens st < length toks" "toks ! opens st = (tok, out)"
    by (simp_all add: nth_append)
  show ?thesis
    unfolding token_trace_def
  proof (rule conjI; intro allI impI)
    fix n b assume "Emitted n b \<in> set (trace ?st')"
    from process_token_emitted [OF this] out
    consider "Emitted n b \<in> set (trace st)" | "n = opens st" "b = out" by auto
    then show "n < length toks \<and> b = snd (toks ! n)"
    proof cases
      case 1
      with tt show ?thesis unfolding token_trace_def by blast
    next
      case 2
      with here show ?thesis by simp
    qed
  next
    fix n p assume "Open_call n p \<in> set (trace ?st')"
    then consider "Open_call n p \<in> set (trace st)" | "n = opens st" "p = tok"
      using process_token_events(2) [where cfg = cfg and os = os and line = line and tok = tok
          and st = st and m = n and p = p]
      by blast
    then show "n < length toks \<and> p = fst (toks ! n)"
    proof cases
      case 1
      with tt show ?thesis unfolding token_trace_def by blast
    next
      case 2
      with here show ?thesis by simp
    qed
  qed
qed

lemma run_tokens:
  assumes "token_trace toks (trace st)"
    and "\<exists>before. toks = before @ pending cfg l inp \<and> length before = opens st"
  shows "token_trace toks (trace (snd (run cfg os l inp st)))"
proof (rule run_rule [where Q = "\<lambda>r. token_trace toks (trace (snd r))" and
      I = "\<lambda>l inp st. token_trace toks (trace st) \<and>
             (\<exists>before. toks = before @ pending cfg l inp \<and> length before = opens st)"], goal_cases)
  case 1
  from assms show ?case by simp
next
  case (2 st)
  then show ?case by simp
next
  case (3 st e)
  then show ?case by (simp add: say_def token_trace_def)
next
  case (4 inp raw rest st)
  then show ?case by (simp add: spec_tokens_read buf_tokens_first)
next
  case (5 buf cursor inp st)
  then show ?case by (simp add: buf_tokens_none)
next
  case (6 buf cursor c inp st)
  let ?tok = "cstring buf c"
  let ?out = "if delimation cfg = NULL_BYTE_DELIMATION then buf else ?tok @ [CHR 0x0A]"
  let ?p = "process_token cfg os buf ?tok st"
  from 6(1) obtain before where tt: "token_trace toks (trace st)"
    and toks: "toks = before @ buf_tokens cfg buf cursor @ spec_tokens cfg inp"
    and len: "length before = opens st"
    by auto
  from toks buf_tokens_some [OF 6(2,3) refl, of inp]
  have toks': "toks = before @ (?tok, ?out) # pending cfg (after_token cfg buf c) inp"
    by simp
  from token_trace_step [OF tt toks' len refl, of os]
  have tt': "token_trace toks (trace (state_of ?p))" .
  have len': "length (before @ [(?tok, ?out)]) = opens (state_of ?p)"
    using len process_token_events(1) [where cfg = cfg and os = os and line = buf
        and tok = ?tok and st = st]
    by simp
  from toks' have split: "toks = (before @ [(?tok, ?out)]) @ pending cfg (after_token cfg buf c) inp"
    by simp
  show ?case
  proof (cases ?p)
    case (Fatal st')
    with tt' show ?thesis by simp
  next
    case (Hung st')
    with tt' show ?thesis by simp
  next
    case (Skipped st')
    with tt' len' split show ?thesis by (simp only: step.case state_of.simps) blast
  next
    case (Done st')
    with tt' len' split show ?thesis by (simp only: step.case state_of.simps) blast
  qed
qed

lemma reaped_codes_set: "(n, c) \<in> set (reaped_codes tr) \<longleftrightarrow> (\<exists>s. Reaped n s c \<in> set tr)"
  by (induction tr rule: reaped_codes.induct) auto

lemma emitted_tokens_set: "n \<in> set (emitted_tokens tr) \<longleftrightarrow> (\<exists>b. Emitted n b \<in> set tr)"
  by (induction tr rule: emitted_tokens.induct) auto

lemma read_record_concat: "read_record d inp = (raw, rest) \<Longrightarrow> raw @ rest = inp"
  by (induction inp arbitrary: raw rest) (auto split: if_splits prod.splits)

lemma records_concat: "concat (records d inp) = inp"
proof (induction d inp rule: records.induct)
  case (1 d inp)
  show ?case
  proof (cases "getdelim d inp")
    case None
    then show ?thesis by (simp add: records.simps [of d inp] getdelim_def split: if_splits)
  next
    case (Some x)
    obtain raw rest where x: "x = (raw, rest)" by (cases x)
    with Some have rd: "getdelim d inp = Some (raw, rest)" by simp
    then have "raw @ rest = inp"
      by (auto simp: getdelim_def read_record_concat split: if_splits)
    with "1.IH" [OF Some x [symmetric]] records_read [OF rd] show ?thesis by simp
  qed
qed

section \<open>The two polarities\<close>

lemma emitted_tokens_append [simp]:
  "emitted_tokens (xs @ ys) = emitted_tokens xs @ emitted_tokens ys"
  by (induction xs rule: emitted_tokens.induct) simp_all

lemma reaped_codes_append [simp]:
  "reaped_codes (xs @ ys) = reaped_codes xs @ reaped_codes ys"
  by (induction xs rule: reaped_codes.induct) simp_all

lemma emitted_tokens_waiting [simp]: "emitted_tokens (replicate k (Wait_other n)) = []"
  by (induction k) simp_all

lemma reaped_codes_waiting [simp]: "reaped_codes (replicate k (Wait_other n)) = []"
  by (induction k) simp_all

lemma reaped_codes_display [simp]: "reaped_codes (display cfg n line tok c) = []"
  by (simp add: display_def)

lemma emitted_tokens_display:
  "emitted_tokens (display cfg n line tok c) =
     (if (display_on_success cfg \<and> c = 0) \<or> (\<not> display_on_success cfg \<and> c \<noteq> 0) then [n] else [])"
  by (simp add: display_def)

lemma toggled_simps [simp]:
  "delimiter (toggled cfg) = delimiter cfg"
  "insert_nulls (toggled cfg) = insert_nulls cfg"
  "locate (toggled cfg) = locate cfg"
  "after_token (toggled cfg) = after_token cfg"
  "getline_function (toggled cfg) = getline_function cfg"
  "errout_fd (toggled cfg) = errout_fd cfg"
  "command (toggled cfg) = command cfg"
  "display_on_success (toggled cfg) = (\<not> display_on_success cfg)"
  by (simp_all add: toggled_def delimiter_def insert_nulls_def locate_def after_token_def
      getline_function_def errout_fd_def fun_eq_iff)

lemma wait_for_child_toggled:
  assumes "alike st st'"
  shows "case (wait_for_child cfg n line tok ws st, wait_for_child (toggled cfg) n line tok ws st') of
           (Fatal a, Fatal b) \<Rightarrow> alike a b
         | (Hung a, Hung b) \<Rightarrow> alike a b
         | (Skipped a, Skipped b) \<Rightarrow> alike a b
         | (Done a, Done b) \<Rightarrow> alike a b
         | _ \<Rightarrow> False"
  using assms
  by (cases "wait_loop n ws") (simp add: wait_for_child_def say_def alike_def split: waited.splits)

lemma process_token_toggled:
  assumes "alike st st'"
  shows "case (process_token cfg os line tok st, process_token (toggled cfg) os line tok st') of
           (Fatal a, Fatal b) \<Rightarrow> alike a b
         | (Hung a, Hung b) \<Rightarrow> alike a b
         | (Skipped a, Skipped b) \<Rightarrow> alike a b
         | (Done a, Done b) \<Rightarrow> alike a b
         | _ \<Rightarrow> False"
proof -
  let ?r = "responses os (opens st) tok"
  from assms have o: "opens st' = opens st" by (simp add: alike_def)
  have w: "case (wait_for_child cfg (opens st) line tok (waits ?r)
                   (say es (say [Open_call (opens st) tok] (st\<lparr>opens := opens st + 1\<rparr>))),
                 wait_for_child (toggled cfg) (opens st) line tok (waits ?r)
                   (say es (say [Open_call (opens st) tok] (st'\<lparr>opens := opens st + 1\<rparr>)))) of
           (Fatal a, Fatal b) \<Rightarrow> alike a b
         | (Hung a, Hung b) \<Rightarrow> alike a b
         | (Skipped a, Skipped b) \<Rightarrow> alike a b
         | (Done a, Done b) \<Rightarrow> alike a b
         | _ \<Rightarrow> False" for es
    using assms by (intro wait_for_child_toggled) (simp add: alike_def say_def)
  show ?thesis
  proof (cases "spawns ?r \<and> exec_ok (child ?r)")
    case True
    then show ?thesis
      using w [of "[Setenv (opens st) tok, Fork (opens st)]"]
        w [of "[Setenv (opens st) tok, Fork (opens st), Child_diag Stderr ''dup2'' e]" for e]
      by (cases "child ?r") (simp_all add: process_token_def Let_def o spawns_def)
  next
    case False
    with assms show ?thesis
      by (auto simp: process_token_def Let_def o spawns_def say_def alike_def
          split: option.splits sum.splits bool.splits child_behaviour.splits)
  qed
qed

lemma run_toggled:
  assumes "alike st0 st0'"
  shows "fst (run cfg os l0 inp0 st0) = fst (run (toggled cfg) os l0 inp0 st0') \<and>
         alike (snd (run cfg os l0 inp0 st0)) (snd (run (toggled cfg) os l0 inp0 st0'))"
proof (rule run_rule [where
      I = "\<lambda>l inp st. \<exists>st'. alike st st' \<and>
             run (toggled cfg) os l inp st' = run (toggled cfg) os l0 inp0 st0'"
      and Q = "\<lambda>r. fst r = fst (run (toggled cfg) os l0 inp0 st0') \<and>
             alike (snd r) (snd (run (toggled cfg) os l0 inp0 st0'))"], goal_cases)
  case 1
  from assms show ?case by blast
next
  case (2 st)
  then obtain st' where a: "alike st st'"
    and r: "run (toggled cfg) os Next_line [] st' = run (toggled cfg) os l0 inp0 st0'" by blast
  from 2(2) have "run (toggled cfg) os Next_line [] st' =
      (Exit (if non_fatal_errors st' then 2 else 0), st')"
    by (simp add: run.simps getdelim_def)
  with r have "run (toggled cfg) os l0 inp0 st0' =
      (Exit (if non_fatal_errors st' then 2 else 0), st')" by simp
  with a show ?case by (simp add: alike_def)
next
  case (3 st e)
  then obtain st' where a: "alike st st'"
    and r: "run (toggled cfg) os Next_line [] st' = run (toggled cfg) os l0 inp0 st0'" by blast
  from 3(2) have "run (toggled cfg) os Next_line [] st' =
      (Exit 1, say [Diag (getline_function cfg) e] st')"
    by (simp add: run.simps getdelim_def)
  with r have "run (toggled cfg) os l0 inp0 st0' =
      (Exit 1, say [Diag (getline_function cfg) e] st')" by simp
  with a show ?case by (simp add: alike_def say_def)
next
  case (4 inp raw rest st)
  then obtain st' where a: "alike st st'"
    and r: "run (toggled cfg) os Next_line inp st' = run (toggled cfg) os l0 inp0 st0'" by blast
  from 4(2) have "run (toggled cfg) os Next_line inp st' =
      run (toggled cfg) os (While_cursor (insert_nulls cfg raw) 0) rest st'"
    by (simp add: run.simps)
  with r a show ?case by auto
next
  case (5 buf cursor inp st)
  then obtain st' where a: "alike st st'"
    and r: "run (toggled cfg) os (While_cursor buf cursor) inp st' =
            run (toggled cfg) os l0 inp0 st0'" by blast
  from 5(2) have "run (toggled cfg) os (While_cursor buf cursor) inp st' =
      run (toggled cfg) os Next_line inp st'"
    by (auto simp: run.simps)
  with r a show ?case by auto
next
  case (6 buf cursor c inp st)
  then obtain st' where a: "alike st st'"
    and r: "run (toggled cfg) os (While_cursor buf cursor) inp st' =
            run (toggled cfg) os l0 inp0 st0'" by blast
  let ?p = "process_token cfg os buf (cstring buf c) st"
  let ?p' = "process_token (toggled cfg) os buf (cstring buf c) st'"
  note t = process_token_toggled [OF a, of cfg os buf "cstring buf c"]
  have unf: "run (toggled cfg) os (While_cursor buf cursor) inp st' =
     (case ?p' of
        Fatal b \<Rightarrow> (Exit 1, b)
      | Hung b \<Rightarrow> (Hang, b)
      | Skipped b \<Rightarrow> run (toggled cfg) os (after_token cfg buf c) inp b
      | Done b \<Rightarrow> run (toggled cfg) os (after_token cfg buf c) inp b)"
    using 6(2,3) by (simp add: run_token cong: step.case_cong)
  show ?case
  proof (cases ?p)
    case (Fatal x)
    with t obtain b where "?p' = Fatal b" and ab: "alike x b" by (cases ?p') auto
    with unf r have "run (toggled cfg) os l0 inp0 st0' = (Exit 1, b)" by simp
    with ab Fatal show ?thesis by simp
  next
    case (Hung x)
    with t obtain b where "?p' = Hung b" and ab: "alike x b" by (cases ?p') auto
    with unf r have "run (toggled cfg) os l0 inp0 st0' = (Hang, b)" by simp
    with ab Hung show ?thesis by simp
  next
    case (Skipped x)
    with t obtain b where "?p' = Skipped b" and ab: "alike x b" by (cases ?p') auto
    with unf r have "run (toggled cfg) os (after_token cfg buf c) inp b =
        run (toggled cfg) os l0 inp0 st0'" by simp
    with ab Skipped show ?thesis by auto
  next
    case (Done x)
    with t obtain b where "?p' = Done b" and ab: "alike x b" by (cases ?p') auto
    with unf r have "run (toggled cfg) os (after_token cfg buf c) inp b =
        run (toggled cfg) os l0 inp0 st0'" by simp
    with ab Done show ?thesis by auto
  qed
qed

lemma run_tidy:
  assumes "tidy cfg st"
  shows "tidy cfg (snd (run cfg os l inp st))"
proof (rule run_rule [where I = "\<lambda>l inp st. tidy cfg st" and Q = "\<lambda>r. tidy cfg (snd r)"],
    goal_cases)
  case 1
  show ?case by (rule assms)
next
  case (6 buf cursor c inp st)
  then have old: "tidy cfg st" by simp
  show ?case
  proof (cases rule: process_token_cases [of cfg os buf "cstring buf c" st])
    case (Skip e)
    with old show ?thesis by (auto simp: tidy_def)
  next
    case (Early es)
    with old show ?thesis by (auto simp: tidy_def)
  next
    case (Exec e)
    with old show ?thesis by (auto simp: tidy_def)
  next
    case (Hung cd k)
    with old show ?thesis by (auto simp: tidy_def)
  next
    case (Wait_failed cd k e)
    with old show ?thesis by (auto simp: tidy_def)
  next
    case (Done cd k s x)
    with old show ?thesis by (auto simp: tidy_def emitted_tokens_display)
  qed
qed (simp_all add: say_def tidy_def)

lemma split_by_key:
  assumes "distinct (map fst xs)"
  shows "set (map fst (filter P xs)) \<inter> set (map fst (filter (\<lambda>x. \<not> P x) xs)) = {}"
  using assms
proof (induction xs)
  case Nil
  show ?case by simp
next
  case (Cons x xs)
  then have new: "fst x \<notin> fst ` set xs"
    and rest: "set (map fst (filter P xs)) \<inter> set (map fst (filter (\<lambda>x. \<not> P x) xs)) = {}"
    by simp_all
  have "set (map fst (filter Q xs)) \<subseteq> fst ` set xs" for Q by auto
  with new have "fst x \<notin> set (map fst (filter Q xs))" for Q by blast
  with rest show ?case by (cases "P x") auto
qed

lemma main_tidy: "tidy cfg (snd (main cfg os inp))"
proof -
  have "tidy cfg initial" by (simp add: tidy_def initial_def)
  from run_tidy [OF this, of os Next_line inp] show ?thesis
    by (simp add: main_def say_def initial_def tidy_def split: option.splits)
qed

lemma main_toggled: "alike (snd (main cfg os inp)) (snd (main (toggled cfg) os inp))"
proof -
  have "alike initial initial" by (simp add: alike_def)
  from run_toggled [OF this, of cfg os Next_line inp] show ?thesis
    by (simp add: main_def say_def initial_def alike_def split: option.splits)
qed

section \<open>Empty tokens and blank lines\<close>

text \<open>
  C1, as the specification states it: in line and null-byte mode the empty token between
  two consecutive delimiters is handed to the record processor, whose \<open>open\<close> of the
  empty path fails without being fatal. The program does not do that: on the input of
  two line feeds, in a world in which no path can be opened, it calls \<open>open\<close> not once,
  writes no diagnostic and ends with status 0, not 2.
\<close>

theorem empty_token_counterexample:
  "main (config_of LINE_DELIMATION True) nothing_opens [CHR 0x0A, CHR 0x0A] =
     (Exit 0, \<lparr>non_fatal_errors = False, opens = 0, trace = []\<rparr>)"
  by (simp add: example_defs run_defs run.simps)

text \<open>
  C1, amended: in line and null-byte mode a raw record that is the delimiter alone (an
  empty token) is skipped by the test \<open>*cursor == '\0'\<close> of line 214: the state is
  untouched (no \<open>open\<close>, no diagnostic, no non-fatal error, no child) and the loop goes
  on with the next read.
\<close>

theorem empty_token_skipped:
  assumes "delimation cfg \<noteq> ASCII_WHITESPACE_DELIMATION"
  shows "run cfg os Next_line (delimiter cfg # rest) st = run cfg os Next_line rest st"
proof -
  let ?d = "delimiter cfg"
  have rd: "getdelim ?d (?d # rest) = Some ([?d], rest)"
    by (simp add: getdelim_def)
  have buf: "insert_nulls cfg [?d] = [CHR 0x00]"
    using assms by (cases "delimation cfg") (simp_all add: insert_nulls_def delimiter_def at_def)
  have "locate cfg [CHR 0x00] 0 = None"
    using assms by (simp add: locate_def at_def)
  then have "run cfg os (While_cursor [CHR 0x00] 0) rest st = run cfg os Next_line rest st"
    by (simp add: run_no_token)
  with run_read [OF rd, of os st] buf show ?thesis by simp
qed

theorem empty_token_skipped_witness:
  "delimation (config_of NULL_BYTE_DELIMATION True) \<noteq> ASCII_WHITESPACE_DELIMATION \<and>
   run (config_of NULL_BYTE_DELIMATION True) nothing_opens Next_line [CHR 0x00, CHR ''x''] initial =
   run (config_of NULL_BYTE_DELIMATION True) nothing_opens Next_line [CHR ''x''] initial"
proof -
  have h: "delimation (config_of NULL_BYTE_DELIMATION True) \<noteq> ASCII_WHITESPACE_DELIMATION"
    by (simp add: config_of_def)
  from empty_token_skipped [OF h, of nothing_opens "[CHR ''x'']" initial] h
  show ?thesis by (simp add: config_of_def delimiter_def)
qed

text \<open>
  C7: in white-space mode a raw line of white space only (the empty line, a line feed
  alone, included) yields no token: the state is untouched (no \<open>open\<close>, no child) and
  the loop goes on with the next read.
\<close>

theorem blank_line_no_token:
  assumes ws: "delimation cfg = ASCII_WHITESPACE_DELIMATION"
    and rd: "getdelim (delimiter cfg) inp = Some (raw, rest)"
    and blank: "\<forall>c\<in>set raw. isspace c"
  shows "run cfg os Next_line inp st = run cfg os Next_line rest st"
proof -
  let ?buf = "insert_nulls cfg raw"
  have "\<forall>c\<in>set ?buf. c = CHR 0x00"
    using ws blank by (simp add: insert_nulls_def)
  then have "locate cfg ?buf 0 = None"
    using ws by (simp add: locate_def skip_nulls_all_null)
  then have "run cfg os (While_cursor ?buf 0) rest st = run cfg os Next_line rest st"
    by (cases "0 < length ?buf") (simp_all add: run.simps)
  with run_read [OF rd] show ?thesis by simp
qed

theorem blank_line_no_token_witness:
  "delimation (config_of ASCII_WHITESPACE_DELIMATION True) = ASCII_WHITESPACE_DELIMATION \<and>
   getdelim (delimiter (config_of ASCII_WHITESPACE_DELIMATION True))
       [CHR '' '', CHR 0x09, CHR 0x0A, CHR ''x'']
     = Some ([CHR '' '', CHR 0x09, CHR 0x0A], [CHR ''x'']) \<and>
   isspace (CHR '' '') \<and> isspace (CHR 0x09) \<and> isspace (CHR 0x0A) \<and>
   run (config_of ASCII_WHITESPACE_DELIMATION True) nothing_opens Next_line
       [CHR '' '', CHR 0x09, CHR 0x0A, CHR ''x''] initial =
   run (config_of ASCII_WHITESPACE_DELIMATION True) nothing_opens Next_line [CHR ''x''] initial"
proof -
  let ?cfg = "config_of ASCII_WHITESPACE_DELIMATION True"
  have a: "delimation ?cfg = ASCII_WHITESPACE_DELIMATION" by (simp add: config_of_def)
  have b: "getdelim (delimiter ?cfg) [CHR '' '', CHR 0x09, CHR 0x0A, CHR ''x'']
     = Some ([CHR '' '', CHR 0x09, CHR 0x0A], [CHR ''x''])"
    by (simp add: config_of_def getdelim_def delimiter_def)
  have c: "\<forall>c\<in>set [CHR '' '', CHR 0x09, CHR 0x0A]. isspace c" by (simp add: isspace_def)
  from blank_line_no_token [OF a b c, of nothing_opens initial] a b c show ?thesis by simp
qed

section \<open>Fatal errors\<close>

text \<open>
  C10: when \<open>fstat\<close> fails on a token that was opened, the program writes a diagnostic
  that names the path and returns 1 at once, whatever input is left; it does not set
  \<open>non_fatal_errors\<close> and does not go on to the next token.
\<close>

theorem fstat_failure_fatal:
  assumes "cursor < length buf" and "locate cfg buf cursor = Some c"
    and "open_r (responses os (opens st) (cstring buf c)) = None"
    and "fstat_r (responses os (opens st) (cstring buf c)) = Inl e"
  shows "run cfg os (While_cursor buf cursor) inp st =
      (Exit 1, st\<lparr>opens := opens st + 1,
                   trace := trace st @ [Open_call (opens st) (cstring buf c), Diag (cstring buf c) e]\<rparr>)"
  using assms by (simp add: run_token process_token_def say_def Let_def)

theorem fstat_failure_fatal_witness:
  "run (config_of LINE_DELIMATION True) fstat_breaks (While_cursor ''f'' 0) ''g'' initial =
     (Exit 1, \<lparr>non_fatal_errors = False, opens = 1, trace = [Open_call 0 ''f'', Diag ''f'' EIO]\<rparr>)"
proof -
  let ?cfg = "config_of LINE_DELIMATION True"
  have a: "(0::nat) < length ''f''" by simp
  have b: "locate ?cfg ''f'' 0 = Some 0" by (simp add: config_of_def locate_def at_def)
  have c: "open_r (responses fstat_breaks (opens initial) (cstring ''f'' 0)) = None"
    by (simp add: example_defs)
  have d: "fstat_r (responses fstat_breaks (opens initial) (cstring ''f'' 0)) = Inl EIO"
    by (simp add: example_defs)
  from fstat_failure_fatal [OF a b c d, of "''g''"]
  show ?thesis by (simp add: initial_def cstring_def)
qed

text \<open>
  C4: when \<open>execvp\<close> fails in the child, the child writes a diagnostic naming the
  executable \<open>argv[optind]\<close> to its error stream and signals the parent, and the parent
  ends at once with status 1: the trace stops there, with nothing printed for this or
  any later token, whatever input \<open>inp\<close> is left.
\<close>

theorem exec_failure_fatal:
  assumes "cursor < length buf" and "locate cfg buf cursor = Some c"
    and "spawns (responses os (opens st) (cstring buf c))"
    and "child (responses os (opens st) (cstring buf c)) = Exec_fails e"
  shows "run cfg os (While_cursor buf cursor) inp st =
      (Exit 1, st\<lparr>opens := opens st + 1,
                   trace := trace st @
                     [Open_call (opens st) (cstring buf c), Setenv (opens st) (cstring buf c),
                      Fork (opens st), Child_diag (errout_fd cfg) (hd (command cfg)) e, Sigusr1]\<rparr>)"
  using assms by (simp add: run_token process_token_def say_def Let_def spawns_def)

theorem exec_failure_fatal_witness:
  "run (config_of LINE_DELIMATION True) no_such_command (While_cursor ''f'' 0) ''g'' initial =
     (Exit 1, \<lparr>non_fatal_errors = False, opens = 1,
               trace = [Open_call 0 ''f'', Setenv 0 ''f'', Fork 0,
                        Child_diag Stderr ''cat'' ENOENT, Sigusr1]\<rparr>)"
proof -
  let ?cfg = "config_of LINE_DELIMATION True"
  have a: "(0::nat) < length ''f''" by simp
  have b: "locate ?cfg ''f'' 0 = Some 0" by (simp add: config_of_def locate_def at_def)
  have c: "spawns (responses no_such_command (opens initial) (cstring ''f'' 0))"
    by (simp add: example_defs spawns_def)
  have d: "child (responses no_such_command (opens initial) (cstring ''f'' 0)) = Exec_fails ENOENT"
    by (simp add: example_defs)
  from exec_failure_fatal [OF a b c d, of "''g''"]
  show ?thesis by (simp add: initial_def cstring_def errout_fd_def config_of_def)
qed

text \<open>
  C8, as the specification states it: a \<open>wait\<close> that fails because it was interrupted
  is not fatal, and processing goes on. The program makes no such exception: with two
  tokens on the input and a first \<open>wait\<close> that fails with \<open>EINTR\<close>, it writes the
  diagnostic and returns 1, without calling \<open>wait\<close> again and without a second token.
\<close>

theorem interrupted_wait_counterexample:
  "main (config_of LINE_DELIMATION True) wait_interrupted [CHR ''a'', CHR 0x0A, CHR ''b'', CHR 0x0A] =
     (Exit 1, \<lparr>non_fatal_errors = False, opens = 1,
               trace = [Open_call 0 ''a'', Setenv 0 ''a'', Fork 0, Diag ''wait'' EINTR]\<rparr>)"
  by (simp add: example_defs run_defs run.simps)

text \<open>
  C8, amended: every failure of \<open>wait\<close>, the interrupted one included, is fatal, and
  \<open>wait\<close> is not called again. For a token that got its child, when \<open>wait\<close> fails with
  any error \<open>e\<close> (after any number of returns for a stopped child), whatever it would
  return afterwards, the run ends there with status 1: the diagnostic of \<open>wait\<close> is the
  last event, and no further token is opened.
\<close>

theorem wait_failure_fatal:
  assumes "cursor < length buf" and "locate cfg buf cursor = Some c"
    and "spawns (responses os (opens st) (cstring buf c))"
    and "exec_ok (child (responses os (opens st) (cstring buf c)))"
    and "waits (responses os (opens st) (cstring buf c)) =
           replicate k (Wait_status WOther) @ Wait_fails e # ws"
  shows "run cfg os (While_cursor buf cursor) inp st =
     (Exit 1,
      st\<lparr>opens := opens st + 1,
          trace := trace st @
            [Open_call (opens st) (cstring buf c), Setenv (opens st) (cstring buf c),
             Fork (opens st)] @
            (case child (responses os (opens st) (cstring buf c)) of
               Dup2_fails d \<Rightarrow> [Child_diag Stderr ''dup2'' d] | _ \<Rightarrow> []) @
            replicate k (Wait_other (opens st)) @ [Diag ''wait'' e]\<rparr>)"
proof -
  let ?n = "opens st"
  from assms(5) have "wait_loop ?n (waits (responses os ?n (cstring buf c))) =
      (replicate k (Wait_other ?n) @ [Diag ''wait'' e], W_fail e)"
    by (simp add: wait_loop_others)
  then show ?thesis
    using assms(1,2) process_token_waits [OF assms(3,4), of cfg buf]
    by (simp add: run_token wait_for_child_def say_def)
qed

theorem wait_failure_fatal_witness:
  "run (config_of LINE_DELIMATION True) wait_interrupted (While_cursor ''f'' 0) ''g'' initial =
     (Exit 1, \<lparr>non_fatal_errors = False, opens = 1,
               trace = [Open_call 0 ''f'', Setenv 0 ''f'', Fork 0, Diag ''wait'' EINTR]\<rparr>)"
proof -
  let ?cfg = "config_of LINE_DELIMATION True"
  have a: "(0::nat) < length ''f''" by simp
  have b: "locate ?cfg ''f'' 0 = Some 0" by (simp add: config_of_def locate_def at_def)
  have c: "spawns (responses wait_interrupted (opens initial) (cstring ''f'' 0))"
    by (simp add: example_defs spawns_def)
  have d: "exec_ok (child (responses wait_interrupted (opens initial) (cstring ''f'' 0)))"
    by (simp add: example_defs)
  have e: "waits (responses wait_interrupted (opens initial) (cstring ''f'' 0)) =
      replicate 0 (Wait_status WOther) @ Wait_fails EINTR # [Wait_status (WExited 0)]"
    by (simp add: example_defs)
  from wait_failure_fatal [OF a b c d e, of "''g''"]
  show ?thesis by (simp add: example_defs initial_def cstring_def)
qed

section \<open>Non-fatal errors\<close>



section \<open>The child\<close>

text \<open>
  C5: the status that \<open>wait\<close> returns for the child of a token decides the classified
  code. When \<open>wait\<close> returns (after any number of returns for a stopped child) a status
  \<open>s\<close> that is a normal exit with exit status \<open>x\<close>, the code is \<open>x\<close>; when \<open>s\<close> is a
  death by signal \<open>x\<close>, the code is \<open>x + 128\<close>. The child is reaped with that status and
  that code, the test for printing is made on that code, and the run goes on after the
  token.
\<close>

theorem child_status_classified:
  assumes "cursor < length buf" and "locate cfg buf cursor = Some c"
    and "spawns (responses os (opens st) (cstring buf c))"
    and "exec_ok (child (responses os (opens st) (cstring buf c)))"
    and "waits (responses os (opens st) (cstring buf c)) =
           replicate k (Wait_status WOther) @ Wait_status s # ws"
    and "s = WExited x \<and> return_code = x \<or> s = WSignaled x \<and> return_code = x + 128"
  shows "run cfg os (While_cursor buf cursor) inp st =
     run cfg os (after_token cfg buf c) inp
       (st\<lparr>opens := opens st + 1,
           trace := trace st @
             [Open_call (opens st) (cstring buf c), Setenv (opens st) (cstring buf c),
              Fork (opens st)] @
             (case child (responses os (opens st) (cstring buf c)) of
                Dup2_fails d \<Rightarrow> [Child_diag Stderr ''dup2'' d] | _ \<Rightarrow> []) @
             replicate k (Wait_other (opens st)) @
             Reaped (opens st) s return_code #
             display cfg (opens st) buf (cstring buf c) return_code\<rparr>)"
proof -
  let ?n = "opens st"
  from assms(6) have "wait_loop ?n (Wait_status s # ws) = ([Reaped ?n s return_code], W_code return_code)"
    by auto
  with assms(5) have "wait_loop ?n (waits (responses os ?n (cstring buf c))) =
      (replicate k (Wait_other ?n) @ [Reaped ?n s return_code], W_code return_code)"
    by (simp add: wait_loop_others)
  then show ?thesis
    using assms(1,2) process_token_waits [OF assms(3,4), of cfg buf]
    by (simp add: run_token wait_for_child_def say_def)
qed

theorem child_status_classified_witness:
  "run (config_of LINE_DELIMATION False) killed_by_signal (While_cursor ''f'' 0) [] initial =
     (Exit 0, \<lparr>non_fatal_errors = False, opens = 1,
               trace = [Open_call 0 ''f'', Setenv 0 ''f'', Fork 0, Wait_other 0,
                        Reaped 0 (WSignaled 9) 137, Emitted 0 [CHR ''f'', CHR 0x0A]]\<rparr>)"
proof -
  let ?cfg = "config_of LINE_DELIMATION False"
  have a: "(0::nat) < length ''f''" by simp
  have b: "locate ?cfg ''f'' 0 = Some 0" by (simp add: config_of_def locate_def at_def)
  have c: "spawns (responses killed_by_signal (opens initial) (cstring ''f'' 0))"
    by (simp add: example_defs spawns_def)
  have d: "exec_ok (child (responses killed_by_signal (opens initial) (cstring ''f'' 0)))"
    by (simp add: example_defs)
  have e: "waits (responses killed_by_signal (opens initial) (cstring ''f'' 0)) =
      replicate 1 (Wait_status WOther) @ Wait_status (WSignaled 9) # []"
    by (simp add: example_defs)
  have f: "WSignaled 9 = WExited 9 \<and> (137::int) = 9 \<or> WSignaled 9 = WSignaled 9 \<and> (137::int) = 9 + 128"
    by simp
  from child_status_classified [OF a b c d e f, of "[]"]
  show ?thesis
    by (simp add: example_defs run_defs run.simps)
qed




section \<open>What is printed\<close>

text \<open>
  C6: in every run, token number \<open>n\<close> of the trace is the \<open>n\<close>-th token of the input as the
  specification cuts it, and what is printed for it is what the specification prints for
  that token: in null-byte mode the raw record that the token comes from, byte for byte
  and with its terminating null byte when the input has one; in line and white-space mode
  the text of the token followed by a line feed, whatever ended the token in the input.
  And every token whose child is reaped with a code that passes the test on the code is
  printed so.
\<close>

theorem emitted_bytes:
  "(\<forall>n b. Emitted n b \<in> set (trace (snd (main cfg os inp))) \<longrightarrow>
      n < length (spec_tokens cfg inp) \<and> b = snd (spec_tokens cfg inp ! n)) \<and>
   (\<forall>n p. Open_call n p \<in> set (trace (snd (main cfg os inp))) \<longrightarrow>
      n < length (spec_tokens cfg inp) \<and> p = fst (spec_tokens cfg inp ! n)) \<and>
   (\<forall>n s c. Reaped n s c \<in> set (trace (snd (main cfg os inp))) \<longrightarrow>
      (display_on_success cfg \<and> c = 0 \<or> \<not> display_on_success cfg \<and> c \<noteq> 0) \<longrightarrow>
      Emitted n (snd (spec_tokens cfg inp ! n)) \<in> set (trace (snd (main cfg os inp))))"
proof -
  let ?T = "trace (snd (main cfg os inp))"
  let ?toks = "spec_tokens cfg inp"
  have tt: "token_trace ?toks ?T"
  proof (cases "command cfg \<noteq> [] \<and> dev_null_r os = None \<and> signal_r os = None")
    case True
    then have m: "main cfg os inp = run cfg os Next_line inp initial" by (simp add: main_def)
    have "token_trace ?toks (trace initial)"
      by (simp add: token_trace_def initial_def)
    moreover have "\<exists>before. ?toks = before @ pending cfg Next_line inp \<and>
        length before = opens initial"
      by (simp add: initial_def)
    ultimately have "token_trace ?toks (trace (snd (run cfg os Next_line inp initial)))"
      by (rule run_tokens)
    then show ?thesis unfolding m .
  next
    case False
    then have "\<exists>ev. ?T = [ev] \<and> ((\<exists>m. ev = Message m) \<or> (\<exists>s e. ev = Diag s e))"
      by (auto simp: main_def say_def initial_def split: option.splits)
    then show ?thesis by (auto simp: token_trace_def)
  qed
  have printed: "Emitted n (snd (?toks ! n)) \<in> set ?T"
    if r: "Reaped n s c \<in> set ?T"
      and t: "display_on_success cfg \<and> c = 0 \<or> \<not> display_on_success cfg \<and> c \<noteq> 0"
    for n s c
  proof -
    from r have "(n, c) \<in> set (reaped_codes ?T)" by (auto simp: reaped_codes_set)
    with t have "n \<in> fst ` set (filter (\<lambda>(n, c). display_on_success cfg \<and> c = 0 \<or>
        \<not> display_on_success cfg \<and> c \<noteq> 0) (reaped_codes ?T))"
      by force
    with main_tidy [of cfg os inp] have "n \<in> set (emitted_tokens ?T)"
      by (simp add: tidy_def)
    then obtain b where b: "Emitted n b \<in> set ?T" by (auto simp: emitted_tokens_set)
    with tt have "b = snd (?toks ! n)" unfolding token_trace_def by blast
    with b show ?thesis by simp
  qed
  from tt printed show ?thesis unfolding token_trace_def by blast
qed

theorem emitted_bytes_witness:
  "Emitted 1 [CHR ''b'', CHR 0x0A] \<in>
     set (trace (snd (main (config_of LINE_DELIMATION True) all_succeed
                        [CHR ''a'', CHR 0x0A, CHR ''b'']))) \<and>
   spec_tokens (config_of LINE_DELIMATION True) [CHR ''a'', CHR 0x0A, CHR ''b''] =
     [(''a'', [CHR ''a'', CHR 0x0A]), (''b'', [CHR ''b'', CHR 0x0A])] \<and>
   1 < length (spec_tokens (config_of LINE_DELIMATION True) [CHR ''a'', CHR 0x0A, CHR ''b'']) \<and>
   [CHR ''b'', CHR 0x0A] =
     snd (spec_tokens (config_of LINE_DELIMATION True) [CHR ''a'', CHR 0x0A, CHR ''b''] ! 1) \<and>
   Reaped 1 (WExited 0) 0 \<in>
     set (trace (snd (main (config_of ASCII_WHITESPACE_DELIMATION True) all_succeed
                        [CHR '' '', CHR ''a'', CHR 0x09, CHR ''b'', CHR '' '', CHR 0x0A]))) \<and>
   spec_tokens (config_of ASCII_WHITESPACE_DELIMATION True)
       [CHR '' '', CHR ''a'', CHR 0x09, CHR ''b'', CHR '' '', CHR 0x0A] =
     [(''a'', [CHR ''a'', CHR 0x0A]), (''b'', [CHR ''b'', CHR 0x0A])] \<and>
   Emitted 1 (snd (spec_tokens (config_of ASCII_WHITESPACE_DELIMATION True)
                     [CHR '' '', CHR ''a'', CHR 0x09, CHR ''b'', CHR '' '', CHR 0x0A] ! 1)) \<in>
     set (trace (snd (main (config_of ASCII_WHITESPACE_DELIMATION True) all_succeed
                        [CHR '' '', CHR ''a'', CHR 0x09, CHR ''b'', CHR '' '', CHR 0x0A]))) \<and>
   Emitted 0 [CHR ''x'', CHR 0x00] \<in>
     set (trace (snd (main (config_of NULL_BYTE_DELIMATION True) all_succeed
                        [CHR ''x'', CHR 0x00, CHR ''y'']))) \<and>
   spec_tokens (config_of NULL_BYTE_DELIMATION True) [CHR ''x'', CHR 0x00, CHR ''y''] =
     [(''x'', [CHR ''x'', CHR 0x00]), (''y'', ''y'')] \<and>
   [CHR ''x'', CHR 0x00] =
     snd (spec_tokens (config_of NULL_BYTE_DELIMATION True) [CHR ''x'', CHR 0x00, CHR ''y''] ! 0)"
proof -
  let ?L = "config_of LINE_DELIMATION True"
  let ?W = "config_of ASCII_WHITESPACE_DELIMATION True"
  let ?N = "config_of NULL_BYTE_DELIMATION True"
  let ?l = "[CHR ''a'', CHR 0x0A, CHR ''b'']"
  let ?w = "[CHR '' '', CHR ''a'', CHR 0x09, CHR ''b'', CHR '' '', CHR 0x0A]"
  let ?n = "[CHR ''x'', CHR 0x00, CHR ''y'']"
  have el: "Emitted 1 [CHR ''b'', CHR 0x0A] \<in> set (trace (snd (main ?L all_succeed ?l)))"
    by (simp add: example_defs run_defs run.simps)
  have rw: "Reaped 1 (WExited 0) 0 \<in> set (trace (snd (main ?W all_succeed ?w)))"
    by (simp add: example_defs run_defs run.simps isspace_def skip_nulls.simps skip_word.simps)
  have en: "Emitted 0 [CHR ''x'', CHR 0x00] \<in> set (trace (snd (main ?N all_succeed ?n)))"
    by (simp add: example_defs run_defs run.simps)
  have sl: "spec_tokens ?L ?l = [(''a'', [CHR ''a'', CHR 0x0A]), (''b'', [CHR ''b'', CHR 0x0A])]"
    by (simp add: spec_tokens_def spec_record_tokens_def strip_terminator_def records.simps
        getdelim_def delimiter_def config_of_def)
  have sw: "spec_tokens ?W ?w = [(''a'', [CHR ''a'', CHR 0x0A]), (''b'', [CHR ''b'', CHR 0x0A])]"
    by (simp add: spec_tokens_def spec_record_tokens_def records.simps fields.simps isspace_def
        getdelim_def delimiter_def config_of_def)
  have sn: "spec_tokens ?N ?n = [(''x'', [CHR ''x'', CHR 0x00]), (''y'', ''y'')]"
    by (simp add: spec_tokens_def spec_record_tokens_def strip_terminator_def records.simps
        getdelim_def delimiter_def config_of_def) (simp add: Let_def)
  have dw: "display_on_success ?W \<and> (0::int) = 0 \<or> \<not> display_on_success ?W \<and> (0::int) \<noteq> 0"
    by (simp add: config_of_def)
  from emitted_bytes [of ?L all_succeed ?l] el
  have 1: "1 < length (spec_tokens ?L ?l) \<and> [CHR ''b'', CHR 0x0A] = snd (spec_tokens ?L ?l ! 1)"
    by blast
  from emitted_bytes [of ?W all_succeed ?w] rw dw
  have 2: "Emitted 1 (snd (spec_tokens ?W ?w ! 1)) \<in> set (trace (snd (main ?W all_succeed ?w)))"
    by blast
  from emitted_bytes [of ?N all_succeed ?n] en
  have 3: "[CHR ''x'', CHR 0x00] = snd (spec_tokens ?N ?n ! 0)"
    by blast
  note facts = el sl 1 [THEN conjunct1] 1 [THEN conjunct2] rw sw 2 en sn 3
  show ?thesis by (intro conjI) (rule facts)+
qed

section \<open>The test on the code\<close>

text \<open>
  C2: in every run, the tokens printed are exactly the tokens whose child was reaped with
  a classified code \<open>c\<close> such that \<open>display_on_success\<close> holds and \<open>c = 0\<close>, or
  \<open>display_on_success\<close> does not hold and \<open>c \<noteq> 0\<close>. On the same input in the same world,
  the run with the other polarity reaps the same tokens with the same codes, no token is
  printed by both runs, and the tokens printed by one or the other are all the tokens
  that were reaped.
\<close>

theorem polarity_partition:
  "emitted_tokens (trace (snd (main cfg os inp))) =
     map fst (filter (\<lambda>(n, c). (display_on_success cfg \<and> c = 0) \<or>
                              (\<not> display_on_success cfg \<and> c \<noteq> 0))
                (reaped_codes (trace (snd (main cfg os inp))))) \<and>
   reaped_codes (trace (snd (main (toggled cfg) os inp))) =
     reaped_codes (trace (snd (main cfg os inp))) \<and>
   set (emitted_tokens (trace (snd (main cfg os inp)))) \<inter>
     set (emitted_tokens (trace (snd (main (toggled cfg) os inp)))) = {} \<and>
   set (emitted_tokens (trace (snd (main cfg os inp)))) \<union>
     set (emitted_tokens (trace (snd (main (toggled cfg) os inp)))) =
     fst ` set (reaped_codes (trace (snd (main cfg os inp))))"
proof -
  let ?T = "trace (snd (main cfg os inp))"
  let ?T' = "trace (snd (main (toggled cfg) os inp))"
  let ?P = "\<lambda>(n::nat, c::int). (display_on_success cfg \<and> c = 0) \<or>
                              (\<not> display_on_success cfg \<and> c \<noteq> 0)"
  let ?R = "reaped_codes ?T"
  from main_tidy [of cfg os inp] have e: "emitted_tokens ?T = map fst (filter ?P ?R)"
    and d: "distinct (map fst ?R)" by (simp_all add: tidy_def)
  from main_toggled [of cfg os inp] have r: "reaped_codes ?T' = ?R" by (simp add: alike_def)
  have "(\<lambda>(n::nat, c::int). (display_on_success (toggled cfg) \<and> c = 0) \<or>
            (\<not> display_on_success (toggled cfg) \<and> c \<noteq> 0)) = (\<lambda>x. \<not> ?P x)"
    by (auto simp: fun_eq_iff)
  with main_tidy [of "toggled cfg" os inp] r
  have e': "emitted_tokens ?T' = map fst (filter (\<lambda>x. \<not> ?P x) ?R)"
    by (simp add: tidy_def)
  have disj: "set (emitted_tokens ?T) \<inter> set (emitted_tokens ?T') = {}"
    unfolding e e' by (rule split_by_key [OF d])
  have un: "set (emitted_tokens ?T) \<union> set (emitted_tokens ?T') = fst ` set ?R"
    unfolding e e' by force
  from e r disj un show ?thesis by simp
qed

theorem polarity_partition_witness:
  "emitted_tokens (trace (snd (main (config_of LINE_DELIMATION True) mixed_results
       [CHR ''a'', CHR 0x0A, CHR ''b'', CHR 0x0A]))) = [0] \<and>
   emitted_tokens (trace (snd (main (toggled (config_of LINE_DELIMATION True)) mixed_results
       [CHR ''a'', CHR 0x0A, CHR ''b'', CHR 0x0A]))) = [1] \<and>
   set (emitted_tokens (trace (snd (main (config_of LINE_DELIMATION True) mixed_results
       [CHR ''a'', CHR 0x0A, CHR ''b'', CHR 0x0A])))) \<union>
   set (emitted_tokens (trace (snd (main (toggled (config_of LINE_DELIMATION True)) mixed_results
       [CHR ''a'', CHR 0x0A, CHR ''b'', CHR 0x0A])))) =
   fst ` set (reaped_codes (trace (snd (main (config_of LINE_DELIMATION True) mixed_results
       [CHR ''a'', CHR 0x0A, CHR ''b'', CHR 0x0A]))))"
proof -
  let ?cfg = "config_of LINE_DELIMATION True"
  let ?inp = "[CHR ''a'', CHR 0x0A, CHR ''b'', CHR 0x0A]"
  have a: "emitted_tokens (trace (snd (main ?cfg mixed_results ?inp))) = [0]"
    by (simp add: example_defs run_defs run.simps)
  have b: "emitted_tokens (trace (snd (main (toggled ?cfg) mixed_results ?inp))) = [1]"
    by (simp add: example_defs toggled_def run_defs run.simps)
  have "set (emitted_tokens (trace (snd (main ?cfg mixed_results ?inp)))) \<union>
        set (emitted_tokens (trace (snd (main (toggled ?cfg) mixed_results ?inp)))) =
        fst ` set (reaped_codes (trace (snd (main ?cfg mixed_results ?inp))))"
    using polarity_partition [of ?cfg mixed_results ?inp] by (elim conjE)
  with a b show ?thesis by (intro conjI)
qed

end
